theory Spec2Isabelle
  imports Main "HOL-Library.Word"
begin

section \<open>Memory model\<close>

text \<open>
  The allocator of \<^verbatim>\<open>malloc.c\<close> is modelled for an LP64 target: \<^verbatim>\<open>size_t\<close> is a
  64-bit word, \<^verbatim>\<open>unsigned\<close> is a 32-bit word and \<^verbatim>\<open>sizeof(Header)\<close> is 16 (a pointer,
  an \<^verbatim>\<open>unsigned\<close> and padding, aligned as \<^verbatim>\<open>long\<close>). Addresses are byte addresses,
  kept as natural numbers (pointer arithmetic that leaves the address space is undefined
  in C and is not wrapped here); \<^verbatim>\<open>NULL\<close> is address 0.

  Memory is seen through two stores: \<open>hdr\<close> gives the \<^verbatim>\<open>Header\<close> object read at an
  address and \<open>dat\<close> the payload bytes. \<^verbatim>\<open>malloc\<close>, \<^verbatim>\<open>free\<close> and \<^verbatim>\<open>morecore\<close>
  only read and write \<^verbatim>\<open>Header\<close> fields. \<^verbatim>\<open>memcpy\<close> in \<^verbatim>\<open>realloc\<close> moves bytes:
  it reads payload bytes and writes them to the payload store and, wherever a byte written
  lies under a field of the \<^verbatim>\<open>Header\<close> read at some address, to that header; the
  fields are laid out as on a little-endian LP64 machine, \<^verbatim>\<open>s.ptr\<close> in bytes 0 to 7
  and \<^verbatim>\<open>s.size\<close> in bytes 8 to 11. So a copy that runs past the block it was given
  overwrites the headers of the blocks behind it, as in the program. The payload store
  holds what the caller or the system put into the payload of the blocks; where the
  caller has written nothing the bytes are indeterminate in C, and they are whatever
  \<open>dat\<close> says (zero in memory fresh from \<^verbatim>\<open>sbrk\<close>).

  The build modelled is the one without \<^verbatim>\<open>MMAP\<close>: \<^verbatim>\<open>morecore\<close> calls \<^verbatim>\<open>sbrk\<close>.
  \<^verbatim>\<open>STRATEGY\<close> is a parameter.
\<close>

type_synonym addr = nat

definition NULL :: addr where
  "NULL = 0"

definition NALLOC :: "32 word" where
  "NALLOC = 1024"

definition sizeof_Header :: nat where
  "sizeof_Header = 16"

record header =
  s_ptr :: addr
  s_size :: "32 word"

datatype strategy = STRATEGY_FIRST | STRATEGY_BEST

text \<open>
  The state: the two stores, the address of the static \<^verbatim>\<open>base\<close>, the cursor
  \<^verbatim>\<open>freep\<close>, and the program break with the limit beyond which \<^verbatim>\<open>sbrk\<close> fails.
\<close>

record state =
  hdr :: "addr \<Rightarrow> header"
  dat :: "addr \<Rightarrow> 8 word"
  base :: addr
  freep :: addr
  brk :: addr
  brk_max :: addr

text \<open>Writes of one field of the \<^verbatim>\<open>Header\<close> at an address, and \<^verbatim>\<open>Header *\<close> arithmetic.\<close>

definition set_ptr :: "(addr \<Rightarrow> header) \<Rightarrow> addr \<Rightarrow> addr \<Rightarrow> (addr \<Rightarrow> header)" where
  "set_ptr h a v = h(a := (h a)\<lparr>s_ptr := v\<rparr>)"

definition set_size :: "(addr \<Rightarrow> header) \<Rightarrow> addr \<Rightarrow> 32 word \<Rightarrow> (addr \<Rightarrow> header)" where
  "set_size h a v = h(a := (h a)\<lparr>s_size := v\<rparr>)"

definition hplus :: "addr \<Rightarrow> 32 word \<Rightarrow> addr" where
  "hplus p n = p + sizeof_Header * unat n"

section \<open>free\<close>

text \<open>
  The scan of lines 56 to 58. It returns the block \<open>p\<close> at which the loop stops; a scan
  that never stops has no result.
\<close>

partial_function (option) free_scan :: "(addr \<Rightarrow> header) \<Rightarrow> addr \<Rightarrow> addr \<Rightarrow> addr option" where
  "free_scan h bp p =
     (if bp > p \<and> bp < s_ptr (h p) then Some p
      else if p \<ge> s_ptr (h p) \<and> (bp > p \<or> bp < s_ptr (h p)) then Some p
      else free_scan h bp (s_ptr (h p)))"

text \<open>Lines 60 to 65: join to the upper neighbour, or link to it.\<close>

definition join_upper :: "(addr \<Rightarrow> header) \<Rightarrow> addr \<Rightarrow> addr \<Rightarrow> (addr \<Rightarrow> header)" where
  "join_upper h bp p =
     (if hplus bp (s_size (h bp)) = s_ptr (h p) then
        (let h1 = set_size h bp (s_size (h bp) + s_size (h (s_ptr (h p))))
         in set_ptr h1 bp (s_ptr (h1 (s_ptr (h1 p)))))
      else set_ptr h bp (s_ptr (h p)))"

text \<open>Lines 67 to 71: join to the lower neighbour, or link from it.\<close>

definition join_lower :: "(addr \<Rightarrow> header) \<Rightarrow> addr \<Rightarrow> addr \<Rightarrow> (addr \<Rightarrow> header)" where
  "join_lower h bp p =
     (if hplus p (s_size (h p)) = bp then
        (let h1 = set_size h p (s_size (h p) + s_size (h bp))
         in set_ptr h1 p (s_ptr (h1 bp)))
      else set_ptr h p bp)"

text \<open>
  \<^verbatim>\<open>free\<close>. The header of the block is one \<^verbatim>\<open>Header\<close> before \<open>ap\<close>; for a non-null
  \<open>ap\<close> below 16 the subtraction stops at 0, where C is undefined.
\<close>

definition free :: "state \<Rightarrow> addr \<Rightarrow> state option" where
  "free s ap =
     (if ap = NULL then Some s
      else
        (let bp = ap - sizeof_Header in
         case free_scan (hdr s) bp (freep s) of
           None \<Rightarrow> None
         | Some p \<Rightarrow>
             Some (s\<lparr>hdr := join_lower (join_upper (hdr s) bp p) bp p, freep := p\<rparr>)))"

declare free_scan.simps [code]

section \<open>morecore\<close>

text \<open>
  \<^verbatim>\<open>sbrk\<close> with a positive increment: the old break on success, \<open>None\<close> for
  \<^verbatim>\<open>(void *) -1\<close>.
\<close>

definition sbrk :: "state \<Rightarrow> nat \<Rightarrow> (state \<times> addr) option" where
  "sbrk s incr =
     (if brk s + incr \<le> brk_max s then Some (s\<lparr>brk := brk s + incr\<rparr>, brk s) else None)"

text \<open>
  \<^verbatim>\<open>morecore\<close>, lines 95 to 126 without \<^verbatim>\<open>MMAP\<close>. The product
  \<^verbatim>\<open>nu*sizeof(Header)\<close> is computed in \<^verbatim>\<open>size_t\<close>. The result is the new state and
  the returned pointer; there is no result when the call of \<^verbatim>\<open>free\<close> has none.
\<close>

definition morecore :: "state \<Rightarrow> 32 word \<Rightarrow> (state \<times> addr) option" where
  "morecore s nu0 =
     (let nu = (if nu0 < NALLOC then NALLOC else nu0) in
      case sbrk s (unat ((ucast nu :: 64 word) * 16)) of
        None \<Rightarrow> Some (s, NULL)
      | Some (s1, cp) \<Rightarrow>
          (let up = cp;
               s2 = s1\<lparr>hdr := set_size (hdr s1) up nu\<rparr>
           in case free s2 (up + sizeof_Header) of
                None \<Rightarrow> None
              | Some s3 \<Rightarrow> Some (s3, freep s3)))"

section \<open>malloc\<close>

text \<open>Line 152; the quotient is computed in \<^verbatim>\<open>size_t\<close> and stored in an \<^verbatim>\<open>unsigned\<close>.\<close>

definition nunits_of :: "64 word \<Rightarrow> 32 word" where
  "nunits_of nbytes = ucast ((nbytes + 16 - 1) div 16 + 1)"

text \<open>Lines 154 to 157: the first call sets up the degenerate list.\<close>

definition bootstrap :: "state \<Rightarrow> state" where
  "bootstrap s =
     (if freep s = NULL then
        s\<lparr>hdr := set_size (set_ptr (hdr s) (base s) (base s)) (base s) 0, freep := base s\<rparr>
      else s)"

text \<open>Lines 163, 170, 171 (and 183 to 185): the block \<open>p\<close> leaves the list whole.\<close>

definition unlink_block :: "state \<Rightarrow> addr \<Rightarrow> addr \<Rightarrow> state \<times> addr" where
  "unlink_block s prevp p =
     (s\<lparr>hdr := set_ptr (hdr s) prevp (s_ptr (hdr s p)), freep := prevp\<rparr>, p + sizeof_Header)"

text \<open>Lines 165 to 171 (and 204 to 208): the tail end of \<open>p\<close> is allocated.\<close>

definition split_block :: "state \<Rightarrow> 32 word \<Rightarrow> addr \<Rightarrow> addr \<Rightarrow> state \<times> addr" where
  "split_block s nunits prevp p =
     (let h1 = set_size (hdr s) p (s_size (hdr s p) - nunits);
          p' = hplus p (s_size (h1 p));
          h2 = set_size h1 p' nunits
      in (s\<lparr>hdr := h2, freep := prevp\<rparr>, p' + sizeof_Header))"

text \<open>The loop of lines 160 to 176.\<close>

partial_function (option) first_fit ::
  "state \<Rightarrow> 32 word \<Rightarrow> addr \<Rightarrow> addr \<Rightarrow> (state \<times> addr) option" where
  "first_fit s nunits prevp p =
     (if s_size (hdr s p) \<ge> nunits then
        (if s_size (hdr s p) = nunits then Some (unlink_block s prevp p)
         else Some (split_block s nunits prevp p))
      else if p = freep s then
        (case morecore s nunits of
           None \<Rightarrow> None
         | Some (s', p') \<Rightarrow>
             if p' = NULL then Some (s', NULL)
             else first_fit s' nunits p' (s_ptr (hdr s' p')))
      else first_fit s nunits p (s_ptr (hdr s p)))"

text \<open>
  The loop of lines 181 to 202 and the split after it. \<open>p_best\<close> starts as \<^verbatim>\<open>NULL\<close>;
  \<open>prevp_best\<close> is read only after it has been assigned.
\<close>

partial_function (option) best_fit ::
  "state \<Rightarrow> 32 word \<Rightarrow> addr \<Rightarrow> addr \<Rightarrow> addr \<Rightarrow> addr \<Rightarrow> (state \<times> addr) option" where
  "best_fit s nunits prevp p p_best prevp_best =
     (if s_size (hdr s p) = nunits then Some (unlink_block s prevp p)
      else
        (let better = ((p_best = NULL \<or> s_size (hdr s p) < s_size (hdr s p_best))
                        \<and> s_size (hdr s p) > nunits);
             p_best1 = (if better then p else p_best);
             prevp_best1 = (if better then prevp else prevp_best)
         in if p = freep s then
              (if p_best1 \<noteq> NULL then Some (split_block s nunits prevp_best1 p_best1)
               else
                 (case morecore s nunits of
                    None \<Rightarrow> None
                  | Some (s', p') \<Rightarrow>
                      if p' = NULL then Some (s', NULL)
                      else best_fit s' nunits p' (s_ptr (hdr s' p')) p_best1 prevp_best1))
            else best_fit s nunits p (s_ptr (hdr s p)) p_best1 prevp_best1))"

declare first_fit.simps [code] best_fit.simps [code]

text \<open>\<^verbatim>\<open>malloc\<close>: the new state and the returned pointer.\<close>

definition malloc :: "strategy \<Rightarrow> state \<Rightarrow> 64 word \<Rightarrow> (state \<times> addr) option" where
  "malloc strat s nbytes =
     (if nbytes = 0 then Some (s, NULL)
      else
        (let nunits = nunits_of nbytes;
             s1 = bootstrap s;
             prevp = freep s1
         in case strat of
              STRATEGY_FIRST \<Rightarrow> first_fit s1 nunits prevp (s_ptr (hdr s1 prevp))
            | STRATEGY_BEST \<Rightarrow> best_fit s1 nunits prevp (s_ptr (hdr s1 prevp)) NULL NULL))"

section \<open>realloc\<close>

text \<open>
  \<^verbatim>\<open>memcpy(dst, src, n)\<close> on the payload bytes (every byte is read before any is
  written: a byte of the source that the copy itself overwrites is taken as it was before
  the call), and the same copy seen through the header store: \<open>header_byte\<close> is byte \<open>k\<close>
  of the two fields of a \<^verbatim>\<open>Header\<close>, \<open>le_nat\<close> the number a little-endian byte
  sequence denotes, and \<open>memcpy_hdr\<close> reads each field that has a byte in the written
  range \<open>dst .. dst + n - 1\<close> anew, from the bytes written and the bytes left.
\<close>

definition memcpy :: "(addr \<Rightarrow> 8 word) \<Rightarrow> addr \<Rightarrow> addr \<Rightarrow> nat \<Rightarrow> (addr \<Rightarrow> 8 word)" where
  "memcpy d dst src n = (\<lambda>a. if dst \<le> a \<and> a < dst + n then d (src + (a - dst)) else d a)"

definition header_byte :: "header \<Rightarrow> nat \<Rightarrow> 8 word" where
  "header_byte hr k =
     (if k < 8 then of_nat (s_ptr hr div 256 ^ k)
      else of_nat (unat (s_size hr) div 256 ^ (k - 8)))"

fun le_nat :: "8 word list \<Rightarrow> nat" where
  "le_nat [] = 0"
| "le_nat (b # bs) = unat b + 256 * le_nat bs"

definition memcpy_hdr ::
  "(addr \<Rightarrow> header) \<Rightarrow> (addr \<Rightarrow> 8 word) \<Rightarrow> addr \<Rightarrow> addr \<Rightarrow> nat \<Rightarrow> (addr \<Rightarrow> header)" where
  "memcpy_hdr h d dst src n =
     (\<lambda>x. let byte = (\<lambda>k. if dst \<le> x + k \<and> x + k < dst + n then d (src + (x + k - dst))
                          else header_byte (h x) k)
          in \<lparr>s_ptr = (if n \<noteq> 0 \<and> dst < x + 8 \<and> x < dst + n
                       then le_nat (map byte [0 ..< 8]) else s_ptr (h x)),
              s_size = (if n \<noteq> 0 \<and> dst < x + 12 \<and> x + 8 < dst + n
                        then of_nat (le_nat (map byte [8 ..< 12])) else s_size (h x))\<rparr>)"

definition realloc :: "strategy \<Rightarrow> state \<Rightarrow> addr \<Rightarrow> 64 word \<Rightarrow> (state \<times> addr) option" where
  "realloc strat s ptr sz =
     (if ptr = NULL then malloc strat s sz
      else if sz = 0 then
        (case free s ptr of None \<Rightarrow> None | Some s' \<Rightarrow> Some (s', NULL))
      else
        (case malloc strat s sz of
           None \<Rightarrow> None
         | Some (s1, new_ptr) \<Rightarrow>
             if new_ptr = NULL then Some (s1, NULL)
             else
               (let ptr_h = ptr - sizeof_Header;
                    ptr_size = 16 * (ucast (s_size (hdr s1 ptr_h) - 1) :: 64 word);
                    min_size = (if sz < ptr_size then sz else ptr_size);
                    s2 = s1\<lparr>dat := memcpy (dat s1) new_ptr ptr (unat min_size),
                            hdr := memcpy_hdr (hdr s1) (dat s1) new_ptr ptr (unat min_size)\<rparr>
                in case free s2 ptr of
                     None \<Rightarrow> None
                   | Some s3 \<Rightarrow> Some (s3, new_ptr))))"

section \<open>A freshly started process\<close>

text \<open>
  Before the first call \<^verbatim>\<open>freep\<close> is \<^verbatim>\<open>NULL\<close> and the static \<^verbatim>\<open>base\<close> is zeroed.
  \<open>fresh_state b lo hi\<close> places \<^verbatim>\<open>base\<close> at \<open>b\<close>, the break at \<open>lo\<close> and
  lets \<^verbatim>\<open>sbrk\<close> grow it up to \<open>hi\<close>.
\<close>

definition fresh_state :: "addr \<Rightarrow> addr \<Rightarrow> addr \<Rightarrow> state" where
  "fresh_state b lo hi =
     \<lparr>hdr = (\<lambda>_. \<lparr>s_ptr = NULL, s_size = 0\<rparr>), dat = (\<lambda>_. 0), base = b,
      freep = NULL, brk = lo, brk_max = hi\<rparr>"

section \<open>Notions used to state the properties\<close>

text \<open>The size recorded in the header in front of a returned pointer.\<close>

definition recorded_units :: "state \<times> addr \<Rightarrow> 32 word" where
  "recorded_units res = s_size (hdr (fst res) (snd res - sizeof_Header))"

text \<open>
  The raw memory source is exhausted for a growth of \<open>nu\<close> units: the \<^verbatim>\<open>sbrk\<close> call
  that \<^verbatim>\<open>morecore\<close> would make fails.
\<close>

definition grow_fails :: "state \<Rightarrow> 32 word \<Rightarrow> bool" where
  "grow_fails s nu =
     (sbrk s (unat ((ucast (if nu < NALLOC then NALLOC else nu) :: 64 word) * 16)) = None)"

text \<open>
  \<open>path h p xs\<close>: following \<^verbatim>\<open>s.ptr\<close> from \<open>p\<close> visits \<open>xs\<close> in this order.
  \<open>revolution s xs\<close>: \<open>xs\<close> is one revolution of the free list, walked from just after
  the cursor up to the first return to the cursor.
\<close>

fun path :: "(addr \<Rightarrow> header) \<Rightarrow> addr \<Rightarrow> addr list \<Rightarrow> bool" where
  "path h p [] = True"
| "path h p (x # xs) = (s_ptr (h p) = x \<and> path h x xs)"

definition revolution :: "state \<Rightarrow> addr list \<Rightarrow> bool" where
  "revolution s xs =
     (xs \<noteq> [] \<and> path (hdr s) (freep s) xs \<and> last xs = freep s \<and> freep s \<notin> set (butlast xs))"

text \<open>The blocks of a walk, each paired with the block visited just before it.\<close>

fun walk_pairs :: "addr \<Rightarrow> addr list \<Rightarrow> (addr \<times> addr) list" where
  "walk_pairs prev [] = []"
| "walk_pairs prev (x # xs) = (prev, x) # walk_pairs x xs"

text \<open>
  The two outcomes of a placement, in the words of the specification. An exact match is
  unlinked whole: its predecessor takes over its successor link. A larger block is split:
  its size drops by \<open>n\<close> units and the last \<open>n\<close> units become the allocated block. In both
  cases the cursor becomes the predecessor and the result is the address past the header
  of the allocated block.
\<close>

definition unlink_whole :: "state \<Rightarrow> addr \<Rightarrow> addr \<Rightarrow> state \<times> addr" where
  "unlink_whole s prevp p =
     (s\<lparr>hdr := (hdr s)(prevp := (hdr s prevp)\<lparr>s_ptr := s_ptr (hdr s p)\<rparr>), freep := prevp\<rparr>,
      p + sizeof_Header)"

definition carve_upper :: "state \<Rightarrow> 32 word \<Rightarrow> addr \<Rightarrow> addr \<Rightarrow> state \<times> addr" where
  "carve_upper s n prevp p =
     (let rest = unat (s_size (hdr s p)) - unat n;
          q = p + sizeof_Header * rest
      in (s\<lparr>hdr := (hdr s)(p := (hdr s p)\<lparr>s_size := of_nat rest\<rparr>,
                            q := (hdr s q)\<lparr>s_size := n\<rparr>),
            freep := prevp\<rparr>,
          q + sizeof_Header))"

definition place :: "state \<Rightarrow> 32 word \<Rightarrow> addr \<times> addr \<Rightarrow> state \<times> addr" where
  "place s n c =
     (if s_size (hdr s (snd c)) = n then unlink_whole s (fst c) (snd c)
      else carve_upper s n (fst c) (snd c))"

text \<open>
  The smallest block of a list of candidates, the earliest one among equals.
\<close>

fun smallest_block :: "(addr \<Rightarrow> header) \<Rightarrow> (addr \<times> addr) list \<Rightarrow> (addr \<times> addr) option" where
  "smallest_block h [] = None"
| "smallest_block h (c # cs) =
     (case smallest_block h cs of
        None \<Rightarrow> Some c
      | Some d \<Rightarrow> if s_size (h (snd d)) < s_size (h (snd c)) then Some d else Some c)"

text \<open>
  What remains of a call when a revolution found no block: grow the arena by \<open>nunits\<close>,
  give up if that fails, and otherwise run the call again on the grown state.
\<close>

definition grow_and_retry :: "strategy \<Rightarrow> state \<Rightarrow> 64 word \<Rightarrow> (state \<times> addr) option" where
  "grow_and_retry strat s nbytes =
     (case morecore s (nunits_of nbytes) of
        None \<Rightarrow> None
      | Some (s', r) \<Rightarrow> if r = NULL then Some (s', NULL) else malloc strat s' nbytes)"

text \<open>First fit and best fit over one revolution, in the words of the specification.\<close>

definition first_fit_spec :: "state \<Rightarrow> 64 word \<Rightarrow> addr list \<Rightarrow> (state \<times> addr) option" where
  "first_fit_spec s nbytes xs =
     (case find (\<lambda>c. nunits_of nbytes \<le> s_size (hdr s (snd c))) (walk_pairs (freep s) xs) of
        Some c \<Rightarrow> Some (place s (nunits_of nbytes) c)
      | None \<Rightarrow> grow_and_retry STRATEGY_FIRST s nbytes)"

definition best_fit_spec :: "state \<Rightarrow> 64 word \<Rightarrow> addr list \<Rightarrow> (state \<times> addr) option" where
  "best_fit_spec s nbytes xs =
     (case find (\<lambda>c. s_size (hdr s (snd c)) = nunits_of nbytes) (walk_pairs (freep s) xs) of
        Some c \<Rightarrow> Some (unlink_whole s (fst c) (snd c))
      | None \<Rightarrow>
          (case smallest_block (hdr s)
                  (filter (\<lambda>c. nunits_of nbytes < s_size (hdr s (snd c)))
                     (walk_pairs (freep s) xs)) of
             Some c \<Rightarrow> Some (carve_upper s (nunits_of nbytes) (fst c) (snd c))
           | None \<Rightarrow> grow_and_retry STRATEGY_BEST s nbytes))"

text \<open>
  The candidate kept by the loop of lines 181 to 202 (\<open>None\<close> while \<open>p_best\<close> is
  \<^verbatim>\<open>NULL\<close>), and the choice between a kept candidate and a later one.
\<close>

definition best_so_far :: "addr \<Rightarrow> addr \<Rightarrow> (addr \<times> addr) option" where
  "best_so_far p_best prevp_best = (if p_best = NULL then None else Some (prevp_best, p_best))"

definition keep_smaller ::
  "(addr \<Rightarrow> header) \<Rightarrow> (addr \<times> addr) option \<Rightarrow> (addr \<times> addr) option \<Rightarrow> (addr \<times> addr) option" where
  "keep_smaller h a r =
     (case a of
        None \<Rightarrow> r
      | Some c \<Rightarrow>
          (case r of
             None \<Rightarrow> Some c
           | Some d \<Rightarrow> if s_size (h (snd d)) < s_size (h (snd c)) then Some d else Some c))"

text \<open>
  Resizing, in the words of the specification: the usable bytes of a block are its
  recorded units less the header unit, times the unit size; a copy moves the first \<open>n\<close>
  payload bytes of one region to another, and the headers that lie under the bytes
  written are the ones these bytes denote.
\<close>

definition usable_bytes :: "state \<Rightarrow> addr \<Rightarrow> nat" where
  "usable_bytes s ptr = sizeof_Header * (unat (s_size (hdr s (ptr - sizeof_Header))) - 1)"

definition copy_payload :: "state \<Rightarrow> addr \<Rightarrow> addr \<Rightarrow> nat \<Rightarrow> state" where
  "copy_payload s dst src n =
     s\<lparr>dat := (\<lambda>a. if a \<in> {dst ..< dst + n} then dat s (src + (a - dst)) else dat s a),
       hdr := memcpy_hdr (hdr s) (dat s) dst src n\<rparr>"

definition copy_and_release :: "state \<Rightarrow> addr \<Rightarrow> addr \<Rightarrow> 64 word \<Rightarrow> (state \<times> addr) option" where
  "copy_and_release s1 new_ptr ptr sz =
     (case free (copy_payload s1 new_ptr ptr (min (unat sz) (usable_bytes s1 ptr))) ptr of
        None \<Rightarrow> None
      | Some s2 \<Rightarrow> Some (s2, new_ptr))"

section \<open>An example state\<close>

text \<open>
  \<^verbatim>\<open>base\<close> at 4096 and three free blocks: 8 units at 8192, 3 units at 8448 and 5 units
  at 8576, with the cursor at \<^verbatim>\<open>base\<close>. Between the first two lies an allocated block of
  8 units at 8320, whose payload starts at 8336. Payload byte \<open>a\<close> holds \<open>a mod 256\<close>.
\<close>

definition example_state :: state where
  "example_state =
     \<lparr>hdr = (\<lambda>_. \<lparr>s_ptr = NULL, s_size = 0\<rparr>)
             (4096 := \<lparr>s_ptr = 8192, s_size = 0\<rparr>,
              8192 := \<lparr>s_ptr = 8448, s_size = 8\<rparr>,
              8320 := \<lparr>s_ptr = NULL, s_size = 8\<rparr>,
              8448 := \<lparr>s_ptr = 8576, s_size = 3\<rparr>,
              8576 := \<lparr>s_ptr = 4096, s_size = 5\<rparr>),
      dat = (\<lambda>a. of_nat a), base = 4096, freep = 4096, brk = 24576, brk_max = 73728\<rparr>"

section \<open>The ring\<close>

text \<open>
  \<open>cyc_sorted xs\<close>: along \<open>xs\<close>, closed into a cycle, addresses increase strictly except
  at one wrap-around point; that is, some rotation of \<open>xs\<close> is strictly increasing.
  \<open>ring h c xs\<close>: the walk from the cursor \<open>c\<close> visits \<open>xs\<close>, comes back to the cursor
  with its last step, and is cyclically sorted.
\<close>

definition cyc_sorted :: "addr list \<Rightarrow> bool" where
  "cyc_sorted xs = list_ex (\<lambda>n. sorted_wrt (<) (rotate n xs)) [0..<length xs]"

definition ring :: "(addr \<Rightarrow> header) \<Rightarrow> addr \<Rightarrow> addr list \<Rightarrow> bool" where
  "ring h c xs = (xs \<noteq> [] \<and> path h c xs \<and> last xs = c \<and> cyc_sorted xs)"

text \<open>The wrap-around points of a walk, as line 57 tests them: \<^verbatim>\<open>p >= p->s.ptr\<close>.\<close>

definition wrap_points :: "(addr \<Rightarrow> header) \<Rightarrow> addr list \<Rightarrow> addr list" where
  "wrap_points h xs = filter (\<lambda>p. s_ptr (h p) \<le> p) xs"

text \<open>The exit condition of the scan of lines 56 to 58 at the block \<open>p\<close>.\<close>

definition is_pos :: "(addr \<Rightarrow> header) \<Rightarrow> addr \<Rightarrow> addr \<Rightarrow> bool" where
  "is_pos h bp p =
     ((bp > p \<and> bp < s_ptr (h p)) \<or> (p \<ge> s_ptr (h p) \<and> (bp > p \<or> bp < s_ptr (h p))))"

text \<open>A sequence of calls; the results of the calls are not kept.\<close>

datatype call = Malloc "64 word" | Free addr | Realloc addr "64 word"

fun perform :: "strategy \<Rightarrow> state \<Rightarrow> call \<Rightarrow> state option" where
  "perform strat s (Malloc nbytes) = map_option fst (malloc strat s nbytes)"
| "perform strat s (Free ap) = free s ap"
| "perform strat s (Realloc ptr sz) = map_option fst (realloc strat s ptr sz)"

fun run :: "strategy \<Rightarrow> state \<Rightarrow> call list \<Rightarrow> state option" where
  "run strat s [] = Some s"
| "run strat s (c # cs) =
     (case perform strat s c of None \<Rightarrow> None | Some s' \<Rightarrow> run strat s' cs)"

section \<open>Coalescing\<close>

text \<open>
  \<open>separated h xs\<close>: along the list, every block that is followed by a block at a
  higher address ends strictly before that block begins.
  \<open>no_contiguous h xs\<close>: no block of \<open>xs\<close> ends exactly where another one begins.
  \<open>well_formed s xs\<close>: the free list is a ring of separated blocks on which \<^verbatim>\<open>base\<close>
  is the block at the lowest address.
  \<open>releasable s xs ap\<close>: \<open>ap\<close> is non-null and its block lies above \<^verbatim>\<open>base\<close>, is not
  on the list and overlaps no block of the list.
\<close>

definition separated :: "(addr \<Rightarrow> header) \<Rightarrow> addr list \<Rightarrow> bool" where
  "separated h xs = list_all (\<lambda>x. x < s_ptr (h x) \<longrightarrow> hplus x (s_size (h x)) < s_ptr (h x)) xs"

definition no_contiguous :: "(addr \<Rightarrow> header) \<Rightarrow> addr list \<Rightarrow> bool" where
  "no_contiguous h xs =
     list_all (\<lambda>x. list_all (\<lambda>y. x = y \<or> hplus x (s_size (h x)) \<noteq> y) xs) xs"

definition well_formed :: "state \<Rightarrow> addr list \<Rightarrow> bool" where
  "well_formed s xs =
     (ring (hdr s) (freep s) xs \<and> base s \<in> set xs \<and> list_all (\<lambda>x. base s \<le> x) xs \<and>
      separated (hdr s) xs)"

definition releasable :: "state \<Rightarrow> addr list \<Rightarrow> addr \<Rightarrow> bool" where
  "releasable s xs ap =
     (ap \<noteq> NULL \<and> base s < ap - sizeof_Header \<and> ap - sizeof_Header \<notin> set xs \<and>
      list_all (\<lambda>x. hplus x (s_size (hdr s x)) \<le> ap - sizeof_Header \<or>
                    hplus (ap - sizeof_Header) (s_size (hdr s (ap - sizeof_Header))) \<le> x) xs)"

text \<open>
  The free block nearest below an address, and the headers after a release next to the
  block \<open>p\<close>, in the words of the specification: the freed block takes over the size and
  the successor of an upper neighbour that begins where it ends, and is linked to that
  neighbour otherwise; the lower neighbour takes over the size and the successor of the
  freed block when it ends where the freed block begins, and is linked to it otherwise.
\<close>

definition nearest_below :: "addr list \<Rightarrow> addr \<Rightarrow> addr \<Rightarrow> bool" where
  "nearest_below xs bp p = (p \<in> set xs \<and> p < bp \<and> list_all (\<lambda>x. x < bp \<longrightarrow> x \<le> p) xs)"

definition coalesced :: "(addr \<Rightarrow> header) \<Rightarrow> addr \<Rightarrow> addr \<Rightarrow> (addr \<Rightarrow> header)" where
  "coalesced h bp p =
     (let q = s_ptr (h p);
          freed = (if hplus bp (s_size (h bp)) = q
                   then \<lparr>s_ptr = s_ptr (h q), s_size = s_size (h bp) + s_size (h q)\<rparr>
                   else \<lparr>s_ptr = q, s_size = s_size (h bp)\<rparr>);
          lower = (if hplus p (s_size (h p)) = bp
                   then \<lparr>s_ptr = s_ptr freed, s_size = s_size (h p) + s_size freed\<rparr>
                   else \<lparr>s_ptr = bp, s_size = s_size (h p)\<rparr>)
      in h(bp := freed, p := lower))"

text \<open>
  \<open>in_use s xs a\<close>: \<open>a\<close> is the address of the header of a block in use: below the break,
  not on the free list and not inside a free block.
\<close>

definition in_use :: "state \<Rightarrow> addr list \<Rightarrow> addr \<Rightarrow> bool" where
  "in_use s xs a =
     (a \<notin> set xs \<and> a < brk s \<and>
      list_all (\<lambda>x. \<not> (x < a \<and> a < hplus x (s_size (hdr s x)))) xs)"

section \<open>The heap in use\<close>

text \<open>
  \<open>heap_inv s xs as\<close>: the free list \<open>xs\<close> is well formed, \<^verbatim>\<open>base\<close> is a non-null block
  of size 0 below the break, every free block lies below the break, and \<open>as\<close> are the
  header addresses of the blocks in use: each is releasable, records at least its own
  unit, ends at or below the break and overlaps no other block in use; no block is listed
  twice.
\<close>

definition heap_inv :: "state \<Rightarrow> addr list \<Rightarrow> addr list \<Rightarrow> bool" where
  "heap_inv s xs as =
     (well_formed s xs \<and> base s \<noteq> NULL \<and> s_size (hdr s (base s)) = 0 \<and> base s < brk s \<and>
      distinct as \<and>
      list_all (\<lambda>x. x < brk s \<and> hplus x (s_size (hdr s x)) \<le> brk s) xs \<and>
      list_all (\<lambda>a. releasable s xs (a + sizeof_Header) \<and> s_size (hdr s a) \<noteq> 0 \<and>
                    hplus a (s_size (hdr s a)) \<le> brk s) as \<and>
      list_all (\<lambda>a. list_all (\<lambda>a'. a = a' \<or> hplus a (s_size (hdr s a)) \<le> a' \<or>
                                   hplus a' (s_size (hdr s a')) \<le> a) as) as)"


section \<open>Use within the contract\<close>

text \<open>
  \<open>call_result\<close> is a call together with the pointer it returns (\<^verbatim>\<open>free\<close> returns
  nothing, written \<open>NULL\<close>), and \<open>blocks_after as c r\<close> the blocks in use after the
  call \<open>c\<close> has returned \<open>r\<close>, when they were \<open>as\<close> before. A call is \<open>allowed\<close> when the
  reference it releases or resizes is \<^verbatim>\<open>NULL\<close> or that of a block in use, and the size
  it requests is at most \<open>max_request\<close>, \<open>2 ^ 36 - 32\<close> bytes, the largest size for which
  line 152 computes the unit count without truncation. A sequence of calls is
  \<open>in_contract\<close> when each call is allowed at the time it is made.
\<close>

definition max_request :: nat where
  "max_request = 2 ^ 36 - 32"

fun call_result :: "strategy \<Rightarrow> state \<Rightarrow> call \<Rightarrow> (state \<times> addr) option" where
  "call_result strat s (Malloc n) = malloc strat s n"
| "call_result strat s (Free ap) = map_option (\<lambda>s'. (s', NULL)) (free s ap)"
| "call_result strat s (Realloc ap n) = realloc strat s ap n"

fun blocks_after :: "addr list \<Rightarrow> call \<Rightarrow> addr \<Rightarrow> addr list" where
  "blocks_after as (Malloc n) r = (if r = NULL then as else (r - sizeof_Header) # as)"
| "blocks_after as (Free ap) r = (if ap = NULL then as else removeAll (ap - sizeof_Header) as)"
| "blocks_after as (Realloc ap n) r =
     (if ap = NULL then (if r = NULL then as else (r - sizeof_Header) # as)
      else if n = 0 then removeAll (ap - sizeof_Header) as
      else if r = NULL then as
      else (r - sizeof_Header) # removeAll (ap - sizeof_Header) as)"

fun allowed :: "addr list \<Rightarrow> call \<Rightarrow> bool" where
  "allowed as (Malloc n) = (unat n \<le> max_request)"
| "allowed as (Free ap) = (ap = NULL \<or> (sizeof_Header \<le> ap \<and> ap - sizeof_Header \<in> set as))"
| "allowed as (Realloc ap n) =
     (unat n \<le> max_request \<and>
      (ap = NULL \<or> (sizeof_Header \<le> ap \<and> ap - sizeof_Header \<in> set as)))"

fun in_contract :: "strategy \<Rightarrow> state \<Rightarrow> addr list \<Rightarrow> call list \<Rightarrow> bool" where
  "in_contract strat s as [] = True"
| "in_contract strat s as (c # cs) =
     (allowed as c \<and>
      (case call_result strat s c of
         None \<Rightarrow> True
       | Some (s', r) \<Rightarrow> in_contract strat s' (blocks_after as c r) cs))"
lemmas run_simps =
  malloc_def nunits_of_def bootstrap_def first_fit.simps best_fit.simps morecore_def
  sbrk_def free_def free_scan.simps join_upper_def join_lower_def set_ptr_def set_size_def
  hplus_def sizeof_Header_def NULL_def NALLOC_def unlink_block_def split_block_def
  fresh_state_def Let_def

section \<open>Degenerate requests\<close>

text \<open>
  C9: \<^verbatim>\<open>malloc(0)\<close> returns \<^verbatim>\<open>NULL\<close> at once; the state, and with it the free list
  and the cursor, is the one before the call.
\<close>

theorem malloc_zero: "malloc strat s 0 = Some (s, NULL)"
  by (simp add: malloc_def)

text \<open>
  C10: \<^verbatim>\<open>free(NULL)\<close> returns with the state unchanged.
\<close>

theorem free_NULL: "free s NULL = Some s"
  by (simp add: free_def)

text \<open>
  C8: \<^verbatim>\<open>realloc(NULL, n)\<close> is \<^verbatim>\<open>malloc(n)\<close>, and \<^verbatim>\<open>realloc(ref, 0)\<close> is
  \<^verbatim>\<open>free(ref)\<close> with the result \<^verbatim>\<open>NULL\<close>. The second equation also holds for a null
  \<open>ref\<close>, where both sides leave the state alone and return \<^verbatim>\<open>NULL\<close>.
\<close>

theorem realloc_degenerate:
  "realloc strat s NULL n = malloc strat s n \<and>
   realloc strat s ref 0 = (case free s ref of None \<Rightarrow> None | Some s' \<Rightarrow> Some (s', NULL))"
  by (simp add: realloc_def malloc_def free_def)

section \<open>The unit count of a request\<close>

text \<open>
  C1 at the request of \<open>2 ^ 36\<close> bytes: the quotient \<open>2 ^ 32 + 1\<close> does not fit the
  \<^verbatim>\<open>unsigned nunits\<close>, which becomes 1. On a fresh process with 64 KiB of room the call
  succeeds under either strategy and returns a block whose header records one unit, the
  header itself: no usable byte for a request of \<open>2 ^ 36\<close>.
\<close>

theorem malloc_truncated_nunits:
  "nunits_of 68719476736 = 1 \<and>
   map_option snd (malloc STRATEGY_FIRST (fresh_state 4096 8192 73728) 68719476736)
     = Some 24576 \<and>
   map_option recorded_units (malloc STRATEGY_FIRST (fresh_state 4096 8192 73728) 68719476736)
     = Some 1 \<and>
   map_option snd (malloc STRATEGY_BEST (fresh_state 4096 8192 73728) 68719476736)
     = Some 24576 \<and>
   map_option recorded_units (malloc STRATEGY_BEST (fresh_state 4096 8192 73728) 68719476736)
     = Some 1"
  by (simp add: run_simps recorded_units_def)

section \<open>Failure by exhaustion\<close>

lemma morecore_grow_fails: "grow_fails s nu \<Longrightarrow> morecore s nu = Some (s, NULL)"
  by (simp add: grow_fails_def morecore_def Let_def)

lemma unlink_block_not_NULL: "snd (unlink_block s prevp p) \<noteq> NULL"
  by (simp add: unlink_block_def NULL_def sizeof_Header_def)

lemma split_block_not_NULL: "snd (split_block s nunits prevp p) \<noteq> NULL"
  by (simp add: split_block_def NULL_def sizeof_Header_def Let_def)

lemma first_fit_exhausted:
  assumes "first_fit s nunits prevp p = Some y"
  shows "grow_fails s nunits \<longrightarrow> snd y = NULL \<longrightarrow> fst y = s"
proof (rule first_fit.raw_induct[where P = "\<lambda>s nunits prevp p y.
          grow_fails s nunits \<longrightarrow> snd y = NULL \<longrightarrow> fst y = s", OF _ assms])
  fix f s nunits prevp p y
  assume IH: "\<And>s nunits prevp p y. f s nunits prevp p = Some y \<Longrightarrow>
                grow_fails s nunits \<longrightarrow> snd y = NULL \<longrightarrow> fst y = s"
    and eq: "(if nunits \<le> s_size (hdr s p)
      then if s_size (hdr s p) = nunits then Some (unlink_block s prevp p)
           else Some (split_block s nunits prevp p)
      else if p = freep s
           then case morecore s nunits of None \<Rightarrow> None
                | Some (s', p') \<Rightarrow>
                    if p' = NULL then Some (s', NULL)
                    else f s' nunits p' (s_ptr (hdr s' p'))
           else f s nunits p (s_ptr (hdr s p))) = Some y"
  show "grow_fails s nunits \<longrightarrow> snd y = NULL \<longrightarrow> fst y = s"
    using eq IH[of s nunits p "s_ptr (hdr s p)" y]
      unlink_block_not_NULL[of s prevp p] split_block_not_NULL[of s nunits prevp p]
    by (auto simp: morecore_grow_fails split: if_splits)
qed

lemma best_fit_exhausted:
  assumes "best_fit s nunits prevp p p_best prevp_best = Some y"
  shows "grow_fails s nunits \<longrightarrow> snd y = NULL \<longrightarrow> fst y = s"
proof (rule best_fit.raw_induct[where P = "\<lambda>s nunits prevp p p_best prevp_best y.
          grow_fails s nunits \<longrightarrow> snd y = NULL \<longrightarrow> fst y = s", OF _ assms])
  fix f s nunits prevp p p_best prevp_best y
  assume IH: "\<And>s nunits prevp p p_best prevp_best y.
                f s nunits prevp p p_best prevp_best = Some y \<Longrightarrow>
                grow_fails s nunits \<longrightarrow> snd y = NULL \<longrightarrow> fst y = s"
    and eq: "(if s_size (hdr s p) = nunits then Some (unlink_block s prevp p)
      else let better =
                 (p_best = NULL \<or>
                  s_size (hdr s p) < s_size (hdr s p_best)) \<and>
                 nunits < s_size (hdr s p);
               p_best1 = if better then p else p_best;
               prevp_best1 = if better then prevp else prevp_best
           in if p = freep s
              then if p_best1 \<noteq> NULL
                   then Some (split_block s nunits prevp_best1 p_best1)
                   else case morecore s nunits of None \<Rightarrow> None
                        | Some (s', p') \<Rightarrow>
                            if p' = NULL then Some (s', NULL)
                            else f s' nunits p' (s_ptr (hdr s' p'))
                                  p_best1 prevp_best1
              else f s nunits p (s_ptr (hdr s p)) p_best1
                    prevp_best1) = Some y"
  show "grow_fails s nunits \<longrightarrow> snd y = NULL \<longrightarrow> fst y = s"
    using eq IH[of s nunits p "s_ptr (hdr s p)" _ _ y]
      unlink_block_not_NULL[of s prevp p]
      split_block_not_NULL[of s nunits prevp p] split_block_not_NULL[of s nunits prevp_best p_best]
    by (auto simp: morecore_grow_fails Let_def split: if_splits)
qed

lemma grow_fails_bootstrap: "grow_fails (bootstrap s) nu = grow_fails s nu"
  by (simp add: grow_fails_def bootstrap_def sbrk_def)

lemma malloc_exhausted_state:
  assumes "nbytes \<noteq> 0" and "grow_fails s (nunits_of nbytes)"
    and "malloc strat s nbytes = Some (s', NULL)"
  shows "s' = bootstrap s \<and> (freep s \<noteq> NULL \<longrightarrow> s' = s)"
proof -
  have g: "grow_fails (bootstrap s) (nunits_of nbytes)"
    using assms(2) by (simp add: grow_fails_bootstrap)
  have "s' = bootstrap s"
  proof (cases strat)
    case STRATEGY_FIRST
    with assms(1,3) have "first_fit (bootstrap s) (nunits_of nbytes) (freep (bootstrap s))
        (s_ptr (hdr (bootstrap s) (freep (bootstrap s)))) = Some (s', NULL)"
      by (simp add: malloc_def Let_def)
    from first_fit_exhausted[OF this] g show ?thesis by simp
  next
    case STRATEGY_BEST
    with assms(1,3) have "best_fit (bootstrap s) (nunits_of nbytes) (freep (bootstrap s))
        (s_ptr (hdr (bootstrap s) (freep (bootstrap s)))) NULL NULL = Some (s', NULL)"
      by (simp add: malloc_def Let_def)
    from best_fit_exhausted[OF this] g show ?thesis by simp
  qed
  then show ?thesis by (simp add: bootstrap_def)
qed

text \<open>
  C7, as the code has it: when \<^verbatim>\<open>malloc\<close> is called with a non-zero size while the raw
  memory source is exhausted and returns \<^verbatim>\<open>NULL\<close>, the state it leaves is the state
  after the bootstrap of lines 154 to 157. On an initialised list (non-null cursor) that is
  the state before the call, unchanged in every component.
\<close>

theorem malloc_exhausted:
  assumes "nbytes \<noteq> 0" and "grow_fails s (nunits_of nbytes)"
    and "malloc strat s nbytes = Some (s', NULL)"
  shows "s' = bootstrap s \<and> (freep s \<noteq> NULL \<longrightarrow> s' = s)"
  using assms by (rule malloc_exhausted_state)

theorem malloc_exhausted_witness:
  "(1 :: 64 word) \<noteq> 0 \<and>
   grow_fails (bootstrap (fresh_state 4096 8192 8192)) (nunits_of 1) \<and>
   malloc STRATEGY_BEST (bootstrap (fresh_state 4096 8192 8192)) 1 =
     Some (bootstrap (fresh_state 4096 8192 8192), NULL) \<and>
   freep (bootstrap (fresh_state 4096 8192 8192)) \<noteq> NULL"
  using malloc_exhausted[of 1 "bootstrap (fresh_state 4096 8192 8192)" STRATEGY_BEST
      "bootstrap (fresh_state 4096 8192 8192)"]
  by (simp add: run_simps grow_fails_def)

text \<open>
  The first call of a process, with the source exhausted: the call returns \<^verbatim>\<open>NULL\<close>,
  and the cursor, \<^verbatim>\<open>NULL\<close> before, is the address of \<^verbatim>\<open>base\<close> after.
\<close>

theorem malloc_exhausted_first_call:
  "grow_fails (fresh_state 4096 8192 8192) (nunits_of 1) \<and>
   map_option snd (malloc STRATEGY_FIRST (fresh_state 4096 8192 8192) 1) = Some NULL \<and>
   freep (fresh_state 4096 8192 8192) = NULL \<and>
   map_option (freep \<circ> fst) (malloc STRATEGY_FIRST (fresh_state 4096 8192 8192) 1) = Some 4096"
  by (simp add: run_simps grow_fails_def)


section \<open>Placement\<close>

lemma unlink_whole_eq: "unlink_whole s prevp p = unlink_block s prevp p"
  by (simp add: unlink_whole_def unlink_block_def set_ptr_def)

lemma carve_upper_eq:
  assumes "n < s_size (hdr s p)"
  shows "carve_upper s n prevp p = split_block s n prevp p"
proof -
  have le: "n \<le> s_size (hdr s p)" using assms by simp
  have u: "unat (s_size (hdr s p) - n) = unat (s_size (hdr s p)) - unat n"
    using le by (simp add: unat_sub)
  have w: "(of_nat (unat (s_size (hdr s p)) - unat n) :: 32 word) = s_size (hdr s p) - n"
    using u[symmetric] by simp
  show ?thesis
    by (simp add: carve_upper_def split_block_def Let_def set_size_def hplus_def u w)
qed

lemma place_eq:
  "n \<le> s_size (hdr s p) \<Longrightarrow>
   place s n (prevp, p) =
     (if s_size (hdr s p) = n then unlink_block s prevp p else split_block s n prevp p)"
  by (simp add: place_def unlink_whole_eq carve_upper_eq)

lemma morecore_result: "morecore s n = Some (s', r) \<Longrightarrow> r = NULL \<or> r = freep s'"
  by (auto simp: morecore_def Let_def split: option.splits prod.splits)

lemma malloc_initialised:
  "nbytes \<noteq> 0 \<Longrightarrow> freep s \<noteq> NULL \<Longrightarrow>
   malloc STRATEGY_FIRST s nbytes =
     first_fit s (nunits_of nbytes) (freep s) (s_ptr (hdr s (freep s)))"
  by (simp add: malloc_def Let_def bootstrap_def)

lemma first_fit_retry:
  "nbytes \<noteq> 0 \<Longrightarrow>
   (case morecore s (nunits_of nbytes) of
           None \<Rightarrow> None
         | Some (s', p') \<Rightarrow>
             if p' = NULL then Some (s', NULL)
             else first_fit s' (nunits_of nbytes) p' (s_ptr (hdr s' p')))
   = grow_and_retry STRATEGY_FIRST s nbytes"
  by (auto simp: grow_and_retry_def malloc_initialised dest: morecore_result split: option.splits)

lemma first_fit_walk:
  assumes "nbytes \<noteq> 0"
  shows "path (hdr s) prevp (p # ys) \<Longrightarrow> last (p # ys) = freep s \<Longrightarrow>
     freep s \<notin> set (butlast (p # ys)) \<Longrightarrow>
     first_fit s (nunits_of nbytes) prevp p =
       (case find (\<lambda>c. nunits_of nbytes \<le> s_size (hdr s (snd c))) (walk_pairs prevp (p # ys)) of
          Some c \<Rightarrow> Some (place s (nunits_of nbytes) c)
        | None \<Rightarrow> grow_and_retry STRATEGY_FIRST s nbytes)"
proof (induction ys arbitrary: prevp p)
  case Nil
  then show ?case
    by (subst first_fit.simps) (simp add: place_eq first_fit_retry[OF assms])
next
  case (Cons y ys)
  have "first_fit s (nunits_of nbytes) p y =
       (case find (\<lambda>c. nunits_of nbytes \<le> s_size (hdr s (snd c))) (walk_pairs p (y # ys)) of
          Some c \<Rightarrow> Some (place s (nunits_of nbytes) c)
        | None \<Rightarrow> grow_and_retry STRATEGY_FIRST s nbytes)"
    using Cons.prems by (intro Cons.IH) (auto split: if_splits)
  moreover have "p \<noteq> freep s" "s_ptr (hdr s p) = y"
    using Cons.prems by auto
  ultimately show ?case
    by (subst first_fit.simps) (simp add: place_eq)
qed

lemma malloc_first_fit_eq:
  assumes "nbytes \<noteq> 0" and "revolution (bootstrap s) xs"
  shows "malloc STRATEGY_FIRST s nbytes = first_fit_spec (bootstrap s) nbytes xs"
proof -
  obtain p ys where xs: "xs = p # ys"
    using assms(2) by (cases xs) (auto simp: revolution_def)
  have walk: "first_fit (bootstrap s) (nunits_of nbytes) (freep (bootstrap s)) p =
       (case find (\<lambda>c. nunits_of nbytes \<le> s_size (hdr (bootstrap s) (snd c)))
               (walk_pairs (freep (bootstrap s)) (p # ys)) of
          Some c \<Rightarrow> Some (place (bootstrap s) (nunits_of nbytes) c)
        | None \<Rightarrow> grow_and_retry STRATEGY_FIRST (bootstrap s) nbytes)"
    using assms(2) unfolding xs revolution_def
    by (intro first_fit_walk[OF assms(1)]) auto
  have "s_ptr (hdr (bootstrap s) (freep (bootstrap s))) = p"
    using assms(2) unfolding xs revolution_def by simp
  then have "malloc STRATEGY_FIRST s nbytes =
      first_fit (bootstrap s) (nunits_of nbytes) (freep (bootstrap s)) p"
    using assms(1) by (simp add: malloc_def Let_def)
  then show ?thesis
    unfolding walk first_fit_spec_def xs .
qed

lemma smallest_block_Cons: "smallest_block h (c # cs) = keep_smaller h (Some c) (smallest_block h cs)"
  by (simp add: keep_smaller_def)

lemma keep_smaller_assoc:
  "keep_smaller h (keep_smaller h a (Some c)) r = keep_smaller h a (keep_smaller h (Some c) r)"
  by (auto simp: keep_smaller_def split: option.splits)

lemma keep_smaller_None [simp]: "keep_smaller h a None = a" "keep_smaller h None r = r"
  by (auto simp: keep_smaller_def split: option.splits)

lemma malloc_initialised_best:
  "nbytes \<noteq> 0 \<Longrightarrow> freep s \<noteq> NULL \<Longrightarrow>
   malloc STRATEGY_BEST s nbytes =
     best_fit s (nunits_of nbytes) (freep s) (s_ptr (hdr s (freep s))) NULL NULL"
  by (simp add: malloc_def Let_def bootstrap_def)

lemma best_fit_retry:
  "nbytes \<noteq> 0 \<Longrightarrow>
   (case morecore s (nunits_of nbytes) of
           None \<Rightarrow> None
         | Some (s', p') \<Rightarrow>
             if p' = NULL then Some (s', NULL)
             else best_fit s' (nunits_of nbytes) p' (s_ptr (hdr s' p')) NULL NULL)
   = grow_and_retry STRATEGY_BEST s nbytes"
  by (auto simp: grow_and_retry_def malloc_initialised_best dest: morecore_result
      split: option.splits)

lemma best_fit_walk:
  assumes "nbytes \<noteq> 0"
  shows "path (hdr s) prevp (p # ys) \<Longrightarrow> last (p # ys) = freep s \<Longrightarrow>
     freep s \<notin> set (butlast (p # ys)) \<Longrightarrow> NULL \<notin> set (p # ys) \<Longrightarrow>
     (p_best = NULL \<longrightarrow> prevp_best = NULL) \<Longrightarrow>
     (p_best \<noteq> NULL \<longrightarrow> nunits_of nbytes < s_size (hdr s p_best)) \<Longrightarrow>
     best_fit s (nunits_of nbytes) prevp p p_best prevp_best =
       (case find (\<lambda>c. s_size (hdr s (snd c)) = nunits_of nbytes) (walk_pairs prevp (p # ys)) of
          Some c \<Rightarrow> Some (unlink_whole s (fst c) (snd c))
        | None \<Rightarrow>
           (case keep_smaller (hdr s) (best_so_far p_best prevp_best)
                   (smallest_block (hdr s)
                      (filter (\<lambda>c. nunits_of nbytes < s_size (hdr s (snd c)))
                         (walk_pairs prevp (p # ys)))) of
              Some c \<Rightarrow> Some (carve_upper s (nunits_of nbytes) (fst c) (snd c))
            | None \<Rightarrow> grow_and_retry STRATEGY_BEST s nbytes))"
proof (induction ys arbitrary: prevp p p_best prevp_best)
  case Nil
  then show ?case
    by (subst best_fit.simps)
       (auto simp: unlink_whole_eq carve_upper_eq best_fit_retry[OF assms] Let_def
          best_so_far_def keep_smaller_def)
next
  case (Cons y ys)
  define better where "better \<longleftrightarrow> (p_best = NULL \<or> s_size (hdr s p) < s_size (hdr s p_best))
                        \<and> s_size (hdr s p) > nunits_of nbytes"
  define pb1 where "pb1 = (if better then p else p_best)"
  define ppb1 where "ppb1 = (if better then prevp else prevp_best)"
  have p: "p \<noteq> freep s" "s_ptr (hdr s p) = y" "p \<noteq> NULL"
    using Cons.prems by auto
  have IH: "best_fit s (nunits_of nbytes) p y pb1 ppb1 =
       (case find (\<lambda>c. s_size (hdr s (snd c)) = nunits_of nbytes) (walk_pairs p (y # ys)) of
          Some c \<Rightarrow> Some (unlink_whole s (fst c) (snd c))
        | None \<Rightarrow>
           (case keep_smaller (hdr s) (best_so_far pb1 ppb1)
                   (smallest_block (hdr s)
                      (filter (\<lambda>c. nunits_of nbytes < s_size (hdr s (snd c)))
                         (walk_pairs p (y # ys)))) of
              Some c \<Rightarrow> Some (carve_upper s (nunits_of nbytes) (fst c) (snd c))
            | None \<Rightarrow> grow_and_retry STRATEGY_BEST s nbytes))"
    using Cons.prems p by (intro Cons.IH) (auto simp: pb1_def ppb1_def better_def split: if_splits)
  have acc: "best_so_far pb1 ppb1 =
      (if nunits_of nbytes < s_size (hdr s p)
       then keep_smaller (hdr s) (best_so_far p_best prevp_best) (Some (prevp, p))
       else best_so_far p_best prevp_best)"
    using p by (auto simp: pb1_def ppb1_def better_def best_so_far_def keep_smaller_def)
  have step: "best_fit s (nunits_of nbytes) prevp p p_best prevp_best =
      (if s_size (hdr s p) = nunits_of nbytes then Some (unlink_block s prevp p)
       else best_fit s (nunits_of nbytes) p y pb1 ppb1)"
    using p by (subst best_fit.simps) (simp add: Let_def pb1_def ppb1_def better_def)
  show ?case
    unfolding step IH acc
    by (simp add: unlink_whole_eq smallest_block_Cons keep_smaller_assoc
          del: smallest_block.simps cong: option.case_cong)
qed

lemma malloc_best_fit_eq:
  assumes "nbytes \<noteq> 0" and "revolution (bootstrap s) xs" and "NULL \<notin> set xs"
  shows "malloc STRATEGY_BEST s nbytes = best_fit_spec (bootstrap s) nbytes xs"
proof -
  obtain p ys where xs: "xs = p # ys"
    using assms(2) by (cases xs) (auto simp: revolution_def)
  have walk: "best_fit (bootstrap s) (nunits_of nbytes) (freep (bootstrap s)) p NULL NULL =
       (case find (\<lambda>c. s_size (hdr (bootstrap s) (snd c)) = nunits_of nbytes)
               (walk_pairs (freep (bootstrap s)) (p # ys)) of
          Some c \<Rightarrow> Some (unlink_whole (bootstrap s) (fst c) (snd c))
        | None \<Rightarrow>
           (case keep_smaller (hdr (bootstrap s)) (best_so_far NULL NULL)
                   (smallest_block (hdr (bootstrap s))
                      (filter (\<lambda>c. nunits_of nbytes < s_size (hdr (bootstrap s) (snd c)))
                         (walk_pairs (freep (bootstrap s)) (p # ys)))) of
              Some c \<Rightarrow> Some (carve_upper (bootstrap s) (nunits_of nbytes) (fst c) (snd c))
            | None \<Rightarrow> grow_and_retry STRATEGY_BEST (bootstrap s) nbytes))"
    using assms(2,3) unfolding xs revolution_def
    by (intro best_fit_walk[OF assms(1)]) auto
  have none: "best_so_far NULL NULL = None"
    by (simp add: best_so_far_def)
  have "s_ptr (hdr (bootstrap s) (freep (bootstrap s))) = p"
    using assms(2) unfolding xs revolution_def by simp
  then have "malloc STRATEGY_BEST s nbytes =
      best_fit (bootstrap s) (nunits_of nbytes) (freep (bootstrap s)) p NULL NULL"
    using assms(1) by (simp add: malloc_def Let_def)
  then show ?thesis
    unfolding walk best_fit_spec_def xs none keep_smaller_None .
qed



section \<open>Resizing\<close>

lemma free_dat: "free s ap = Some s' \<Longrightarrow> dat s' = dat s"
  by (auto simp: free_def Let_def split: if_splits option.splits)

lemma morecore_dat: "morecore s n = Some (s', r) \<Longrightarrow> dat s' = dat s"
  by (auto simp: morecore_def sbrk_def Let_def dest!: free_dat split: if_splits option.splits)

lemma first_fit_dat:
  assumes "first_fit s nunits prevp p = Some y"
  shows "dat (fst y) = dat s"
  apply (rule first_fit.raw_induct[where P = "\<lambda>s nunits prevp p y. dat (fst y) = dat s", OF _ assms])
  apply (auto simp: unlink_block_def split_block_def Let_def dest!: morecore_dat
      split: if_splits option.splits)
  done

lemma best_fit_dat:
  assumes "best_fit s nunits prevp p p_best prevp_best = Some y"
  shows "dat (fst y) = dat s"
  apply (rule best_fit.raw_induct[where P = "\<lambda>s nunits prevp p p_best prevp_best y.
            dat (fst y) = dat s", OF _ assms])
  apply (auto simp: unlink_block_def split_block_def Let_def dest!: morecore_dat
      split: if_splits option.splits)
  done

lemma malloc_dat: "malloc strat s nbytes = Some (s1, r) \<Longrightarrow> dat s1 = dat s"
  using first_fit_dat[of "bootstrap s" "nunits_of nbytes" _ _ "(s1, r)"]
    best_fit_dat[of "bootstrap s" "nunits_of nbytes" _ _ NULL NULL "(s1, r)"]
  by (cases strat) (auto simp: malloc_def Let_def bootstrap_def split: if_splits)

lemma memcpy_copy_payload:
  "s\<lparr>dat := memcpy (dat s) dst src n, hdr := memcpy_hdr (hdr s) (dat s) dst src n\<rparr>
   = copy_payload s dst src n"
  by (simp add: memcpy_def copy_payload_def)

lemma unat_ptr_size:
  assumes "w \<noteq> (0 :: 32 word)"
  shows "unat (16 * (ucast (w - 1) :: 64 word)) = 16 * (unat w - 1)"
proof -
  have a: "unat (w - 1) = unat w - 1"
    using assms by (simp add: unat_minus_one)
  have "unat (w - 1) < 2 ^ LENGTH(32)"
    by (rule unsigned_less)
  then have lt: "unat (w - 1) < 4294967296"
    by simp
  then have b: "unat (ucast (w - 1) :: 64 word) = unat (w - 1)"
    by (simp add: unsigned_ucast_eq take_bit_nat_eq_self)
  have "unat (16 :: 64 word) * unat (ucast (w - 1) :: 64 word) < 2 ^ LENGTH(64)"
    unfolding b using lt by simp
  then have "unat (16 * (ucast (w - 1) :: 64 word)) = unat (16 :: 64 word) * unat (ucast (w - 1) :: 64 word)"
    by (simp only: unat_mult_lem)
  then show ?thesis by (simp add: a b)
qed

lemma min_size_usable:
  assumes "s_size (hdr s1 (ptr - sizeof_Header)) \<noteq> 0"
  shows "unat (if sz < 16 * (ucast (s_size (hdr s1 (ptr - sizeof_Header)) - 1) :: 64 word) then sz
               else 16 * (ucast (s_size (hdr s1 (ptr - sizeof_Header)) - 1) :: 64 word))
         = min (unat sz) (usable_bytes s1 ptr)"
  using unat_ptr_size[OF assms]
  by (auto simp: usable_bytes_def word_less_nat_alt sizeof_Header_def)


lemma realloc_resize_eq:
  assumes "ptr \<noteq> NULL" and "sz \<noteq> 0" and "malloc strat s sz = Some (s1, new_ptr)"
  shows "(new_ptr = NULL \<longrightarrow>
            realloc strat s ptr sz = Some (s1, NULL) \<and> dat s1 = dat s \<and>
            (grow_fails s (nunits_of sz) \<and> freep s \<noteq> NULL \<longrightarrow> s1 = s)) \<and>
         (new_ptr \<noteq> NULL \<and> s_size (hdr s1 (ptr - sizeof_Header)) \<noteq> 0 \<longrightarrow>
            realloc strat s ptr sz = copy_and_release s1 new_ptr ptr sz)"
proof (intro conjI impI)
  assume "new_ptr = NULL"
  with assms show "realloc strat s ptr sz = Some (s1, NULL)"
    by (simp add: realloc_def)
next
  show "dat s1 = dat s"
    using assms(3) by (rule malloc_dat)
next
  assume n: "new_ptr = NULL" and "grow_fails s (nunits_of sz) \<and> freep s \<noteq> NULL"
  then have "s1 = bootstrap s" "freep s \<noteq> NULL"
    using malloc_exhausted_state[of sz s strat s1] assms by auto
  then show "s1 = s"
    by (simp add: bootstrap_def)
next
  assume a: "new_ptr \<noteq> NULL \<and> s_size (hdr s1 (ptr - sizeof_Header)) \<noteq> 0"
  have "realloc strat s ptr sz =
      (case free (s1\<lparr>dat := memcpy (dat s1) new_ptr ptr
          (unat (if sz < 16 * (ucast (s_size (hdr s1 (ptr - sizeof_Header)) - 1) :: 64 word) then sz
               else 16 * (ucast (s_size (hdr s1 (ptr - sizeof_Header)) - 1) :: 64 word))),
          hdr := memcpy_hdr (hdr s1) (dat s1) new_ptr ptr
          (unat (if sz < 16 * (ucast (s_size (hdr s1 (ptr - sizeof_Header)) - 1) :: 64 word) then sz
               else 16 * (ucast (s_size (hdr s1 (ptr - sizeof_Header)) - 1) :: 64 word)))\<rparr>) ptr of
         None \<Rightarrow> None | Some s3 \<Rightarrow> Some (s3, new_ptr))"
    using assms a by (simp add: realloc_def Let_def)
  also have "\<dots> = copy_and_release s1 new_ptr ptr sz"
    unfolding memcpy_copy_payload copy_and_release_def
    using a by (subst min_size_usable) simp_all
  finally show "realloc strat s ptr sz = copy_and_release s1 new_ptr ptr sz" .
qed


section \<open>The ring under the operations\<close>

subsection \<open>Walks\<close>

lemma path_append: "path h p (xs @ ys) = (path h p xs \<and> path h (last (p # xs)) ys)"
  by (induction xs arbitrary: p) auto

lemma path_frame:
  assumes "\<forall>a \<in> set (p # butlast xs). s_ptr (h' a) = s_ptr (h a)"
  shows "path h' p xs = path h p xs"
  using assms
proof (induction xs arbitrary: p)
  case Nil
  then show ?case by simp
next
  case (Cons x xs)
  show ?case
  proof (cases xs)
    case Nil
    with Cons.prems show ?thesis by simp
  next
    case (Cons y ys)
    then have "path h' x xs = path h x xs"
      using Cons.prems by (intro Cons.IH) auto
    then show ?thesis
      using Cons.prems by simp
  qed
qed

lemma path_ptr_cong: "(\<And>a. s_ptr (h' a) = s_ptr (h a)) \<Longrightarrow> path h' p xs = path h p xs"
  by (rule path_frame) simp

subsection \<open>Cyclic order\<close>

lemma cyc_sorted_iff: "cyc_sorted xs \<longleftrightarrow> xs \<noteq> [] \<and> (\<exists>n. sorted_wrt (<) (rotate n xs))"
proof
  assume "cyc_sorted xs"
  then show "xs \<noteq> [] \<and> (\<exists>n. sorted_wrt (<) (rotate n xs))"
    by (auto simp: cyc_sorted_def list_ex_iff)
next
  assume a: "xs \<noteq> [] \<and> (\<exists>n. sorted_wrt (<) (rotate n xs))"
  then obtain n where "sorted_wrt (<) (rotate n xs)" by blast
  then have "sorted_wrt (<) (rotate (n mod length xs) xs)"
    by (simp add: rotate_conv_mod[symmetric])
  moreover have "n mod length xs < length xs"
    using a by simp
  ultimately show "cyc_sorted xs"
    unfolding cyc_sorted_def list_ex_iff by (intro bexI[of _ "n mod length xs"]) auto
qed

lemma cyc_sorted_rotate:
  assumes "cyc_sorted xs" shows "cyc_sorted (rotate m xs)"
proof -
  from assms obtain n where ne: "xs \<noteq> []" and n: "sorted_wrt (<) (rotate n xs)"
    by (auto simp: cyc_sorted_iff)
  obtain k where k: "length xs = Suc k"
    using ne by (cases xs) auto
  have "n + m * k + m = n + m * length xs"
    by (simp add: k)
  then have "rotate (n + m * k) (rotate m xs) = rotate (n + m * length xs) xs"
    by (simp only: rotate_rotate)
  also have "\<dots> = rotate n xs"
    by (subst rotate_conv_mod) (simp add: rotate_conv_mod[symmetric])
  finally show ?thesis
    using n ne unfolding cyc_sorted_iff by (metis rotate_is_Nil_conv)
qed

lemma cyc_sorted_split:
  assumes "cyc_sorted xs"
  obtains us vs where "xs = us @ vs" "sorted_wrt (<) (vs @ us)" "vs \<noteq> []"
proof -
  from assms have ne: "xs \<noteq> []" and "\<exists>n\<in>set [0..<length xs]. sorted_wrt (<) (rotate n xs)"
    by (auto simp: cyc_sorted_def list_ex_iff)
  then obtain n where n: "n < length xs" "sorted_wrt (<) (rotate n xs)" by auto
  have "rotate n xs = drop n xs @ take n xs"
    using n(1) by (simp add: rotate_drop_take)
  with n have "xs = take n xs @ drop n xs" "sorted_wrt (<) (drop n xs @ take n xs)" "drop n xs \<noteq> []"
    by auto
  then show ?thesis by (rule that)
qed

lemma cyc_sorted_join:
  assumes "sorted_wrt (<) (vs @ us)" "us @ vs \<noteq> []"
  shows "cyc_sorted (us @ vs)"
proof -
  have "rotate (length us) (us @ vs) = vs @ us"
    by (simp add: rotate_append)
  with assms show ?thesis
    unfolding cyc_sorted_iff by metis
qed

lemma cyc_sorted_distinct: "cyc_sorted xs \<Longrightarrow> distinct xs"
proof -
  assume "cyc_sorted xs"
  then obtain n where "sorted_wrt (<) (rotate n xs)"
    by (auto simp: cyc_sorted_iff)
  then have "distinct (rotate n xs)"
    by (simp add: strict_sorted_iff)
  then show ?thesis by simp
qed


lemma sorted_wrt_bounds:
  assumes "sorted_wrt (<) xs" "x \<in> set xs"
  shows "hd xs \<le> x \<and> x \<le> last (xs :: nat list)"
  using assms
proof (induction xs)
  case Nil
  then show ?case by simp
next
  case (Cons y ys)
  then show ?case by (cases ys) (auto simp: less_imp_le)
qed

lemma cyc_sorted_tl:
  assumes "cyc_sorted (q # rest)" "rest \<noteq> []"
  shows "cyc_sorted rest"
proof -
  from assms(1) obtain us vs where s: "q # rest = us @ vs" "sorted_wrt (<) (vs @ us)"
    by (rule cyc_sorted_split)
  show ?thesis
  proof (cases us)
    case Nil
    with s have "sorted_wrt (<) (rest @ [])" by auto
    with assms(2) cyc_sorted_join[of rest "[]"] show ?thesis by simp
  next
    case (Cons u us')
    with s have r: "rest = us' @ vs" and "sorted_wrt (<) (vs @ us')"
      by (auto simp: sorted_wrt_append)
    with assms(2) cyc_sorted_join[of vs us'] show ?thesis by simp
  qed
qed

lemma cyc_sorted_drop_second:
  assumes "cyc_sorted (bp # q # rest)"
  shows "cyc_sorted (bp # rest)"
proof -
  have "cyc_sorted (rotate 1 (bp # q # rest))"
    using assms by (rule cyc_sorted_rotate)
  then have "cyc_sorted (q # (rest @ [bp]))" by simp
  then have "cyc_sorted (rest @ [bp])" by (rule cyc_sorted_tl) simp
  then have "cyc_sorted (rotate (length rest) (rest @ [bp]))" by (rule cyc_sorted_rotate)
  then show ?thesis by (simp add: rotate_append)
qed

lemma ring_rotate:
  assumes "ring h c xs" "t \<in> set xs"
  obtains ys where "ring h t ys" "set ys = set xs"
proof -
  from assms(2) obtain as bs where xs: "xs = as @ t # bs"
    by (meson split_list)
  show thesis
  proof (cases bs rule: rev_cases)
    case Nil
    with assms(1) xs have "ring h t xs" by (auto simp: ring_def)
    then show ?thesis by (rule that) simp
  next
    case (snoc bs' b)
    with assms(1) xs have c: "b = c" and p: "path h c (as @ [t])" "path h t bs"
      and cs: "cyc_sorted ((as @ [t]) @ bs)"
      by (auto simp: ring_def path_append)
    have "path h t (bs @ as @ [t])"
      using p c snoc by (simp add: path_append)
    moreover have "cyc_sorted (bs @ as @ [t])"
      using cyc_sorted_rotate[OF cs, of "length (as @ [t])"] by (simp only: rotate_append)
    ultimately have "ring h t (bs @ as @ [t])"
      by (simp add: ring_def)
    then show ?thesis
      by (rule that) (auto simp: xs)
  qed
qed

lemma ring_hd: "ring h c xs \<Longrightarrow> hd xs = s_ptr (h c)"
  by (cases xs) (auto simp: ring_def)

lemma ring_cursor_in: "ring h c xs \<Longrightarrow> c \<in> set xs"
  by (auto simp: ring_def dest: last_in_set)

lemma ring_next_in:
  assumes "ring h c xs" "x \<in> set xs"
  shows "s_ptr (h x) \<in> set xs"
proof -
  from assms obtain ys where ys: "ring h x ys" "set ys = set xs"
    by (rule ring_rotate)
  then have "hd ys = s_ptr (h x)" "ys \<noteq> []"
    by (auto simp: ring_hd ring_def)
  then show ?thesis
    using ys(2) hd_in_set by metis
qed

lemma ring_insert_pos:
  assumes "ring h t xs" "is_pos h bp t"
  shows "bp \<notin> set xs \<and> cyc_sorted (bp # xs)"
proof -
  from assms(1) have ne: "xs \<noteq> []" and hd: "hd xs = s_ptr (h t)" and last: "last xs = t"
    and cs: "cyc_sorted xs"
    by (auto simp: ring_def ring_hd[OF assms(1)])
  from cs obtain us vs where s: "xs = us @ vs" "sorted_wrt (<) (vs @ us)" "vs \<noteq> []"
    by (rule cyc_sorted_split)
  show ?thesis
  proof (cases us)
    case Nil
    with s have sx: "sorted_wrt (<) xs" by simp
    then have b: "\<forall>x\<in>set xs. s_ptr (h t) \<le> x \<and> x \<le> t"
      using sorted_wrt_bounds[OF sx] hd last by auto
    with ne have "s_ptr (h t) \<le> t"
      using last_in_set[OF ne] last by auto
    with assms(2) consider "t < bp" | "bp < s_ptr (h t)"
      by (auto simp: is_pos_def)
    then show ?thesis
    proof cases
      case 1
      with b sx have "sorted_wrt (<) (xs @ [bp])"
        by (auto simp: sorted_wrt_append)
      with cyc_sorted_join[of xs "[bp]"] 1 b show ?thesis by auto
    next
      case 2
      with b sx have "sorted_wrt (<) ((bp # xs) @ [])"
        by auto
      with cyc_sorted_join[of "bp # xs" "[]"] 2 b show ?thesis by auto
    qed
  next
    case (Cons u us')
    with s hd last have u: "u = s_ptr (h t)" and t: "t = last vs"
      by auto
    have sv: "sorted_wrt (<) vs" and su: "sorted_wrt (<) us"
      and lt: "\<forall>v\<in>set vs. \<forall>u\<in>set us. v < u"
      using s(2) by (auto simp: sorted_wrt_append)
    have bv: "\<forall>v\<in>set vs. v \<le> t"
      using sorted_wrt_bounds[OF sv] t by auto
    have bu: "\<forall>x\<in>set us. s_ptr (h t) \<le> x"
      using sorted_wrt_bounds[OF su] u Cons by auto
    have "t < s_ptr (h t)"
      using lt s(3) t u Cons by auto
    with assms(2) have bp: "t < bp" "bp < s_ptr (h t)"
      by (auto simp: is_pos_def)
    have "sorted_wrt (<) (vs @ bp # us)"
      using sv su lt bv bu bp by (auto simp: sorted_wrt_append)
    with cyc_sorted_join[of vs "bp # us"] have "cyc_sorted (bp # xs)"
      by (simp add: s(1))
    moreover have "bp \<notin> set xs"
      using bv bu bp by (auto simp: s(1))
    ultimately show ?thesis by simp
  qed
qed

lemma last_notin_butlast: "distinct xs \<Longrightarrow> xs \<noteq> [] \<Longrightarrow> last xs \<notin> set (butlast xs)"
  by (metis append_butlast_last_id distinct_append disjoint_iff list.set_intros(1))

lemma path_frame_ring:
  assumes "distinct (q # rest)" "last (q # rest) = t" "bp \<notin> set (q # rest)"
    and "\<forall>a. a \<noteq> bp \<and> a \<noteq> t \<longrightarrow> s_ptr (h' a) = s_ptr (h a)"
  shows "path h' q rest = path h q rest"
proof (cases "rest = []")
  case True
  then show ?thesis by simp
next
  case False
  have "t \<notin> set (butlast (q # rest))"
    using last_notin_butlast[OF assms(1)] assms(2) by simp
  moreover have "bp \<notin> set (butlast (q # rest))"
    using assms(3) by (meson in_set_butlastD)
  ultimately show ?thesis
    using assms(4) False by (intro path_frame) auto
qed

lemma ring_relink:
  assumes r: "ring h t xs" and pos: "is_pos h bp t"
    and frame: "\<forall>a. a \<noteq> bp \<and> a \<noteq> t \<longrightarrow> s_ptr (h' a) = s_ptr (h a)"
    and up: "s_ptr (h' bp) = s_ptr (h t) \<or> s_ptr (h' bp) = s_ptr (h (s_ptr (h t)))"
    and lo: "s_ptr (h' t) = bp \<or> s_ptr (h' t) = s_ptr (h' bp)"
  shows "\<exists>ys. ring h' t ys \<and> set ys \<subseteq> insert bp (set xs) \<and>
              set xs - {s_ptr (h t)} \<subseteq> set ys \<and>
              (s_ptr (h' bp) = s_ptr (h t) \<longrightarrow> s_ptr (h t) \<in> set ys)"
proof -
  from ring_insert_pos[OF r pos] have nin: "bp \<notin> set xs" and cs: "cyc_sorted (bp # xs)"
    by auto
  from r obtain q rest where xs: "xs = q # rest" and q: "q = s_ptr (h t)"
    and p: "path h q rest" and l: "last (q # rest) = t" and cx: "cyc_sorted xs"
    by (cases xs) (auto simp: ring_def)
  have d: "distinct (q # rest)"
    using cyc_sorted_distinct[OF cx] xs by simp
  have fr: "path h' q rest = path h q rest"
    using d l nin frame unfolding xs by (rule path_frame_ring)
  show ?thesis
  proof (cases rest)
    case Nil
    with l q have tt: "s_ptr (h t) = t" "q = t" by auto
    with up have ub: "s_ptr (h' bp) = t" by auto
    from lo show ?thesis
    proof
      assume "s_ptr (h' t) = bp"
      with ub cs have "ring h' t [bp, t]"
        by (simp add: ring_def xs Nil tt)
      then show ?thesis by (intro exI[of _ "[bp, t]"]) (simp add: xs tt Nil)
    next
      assume "s_ptr (h' t) = s_ptr (h' bp)"
      with ub cx have "ring h' t [t]"
        by (simp add: ring_def xs Nil tt)
      then show ?thesis by (intro exI[of _ "[t]"]) (simp add: xs tt Nil)
    qed
  next
    case (Cons r' rest')
    with p have qn: "s_ptr (h q) = r'" and p': "path h r' rest'" by auto
    have d': "distinct (r' # rest')" and l': "last (r' # rest') = t"
      and nin': "bp \<notin> set (r' # rest')"
      using d l nin by (auto simp: xs Cons)
    have qr: "q \<noteq> r'"
      using d by (simp add: Cons)
    have fr': "path h' r' rest' = path h r' rest'"
      using d' l' nin' frame by (rule path_frame_ring)
    from up show ?thesis
    proof
      assume u1: "s_ptr (h' bp) = s_ptr (h t)"
      from lo show ?thesis
      proof
        assume "s_ptr (h' t) = bp"
        with u1 cs fr p l have "ring h' t (bp # xs)"
          by (simp add: ring_def xs q)
        then show ?thesis by (intro exI[of _ "bp # xs"]) (auto simp: xs q)
      next
        assume "s_ptr (h' t) = s_ptr (h' bp)"
        with u1 cx fr p l have "ring h' t xs"
          by (simp add: ring_def xs q)
        then show ?thesis by (intro exI[of _ xs]) (auto simp: xs q)
      qed
    next
      assume u2: "s_ptr (h' bp) = s_ptr (h (s_ptr (h t)))"
      then have u2': "s_ptr (h' bp) = r'" using qn q by simp
      have c1: "cyc_sorted (bp # rest)"
        using cs unfolding xs by (rule cyc_sorted_drop_second)
      have c2: "cyc_sorted rest"
        using cx unfolding xs by (rule cyc_sorted_tl) (simp add: Cons)
      from lo show ?thesis
      proof
        assume "s_ptr (h' t) = bp"
        with u2' c1 fr' p' l have "ring h' t (bp # rest)"
          by (simp add: ring_def Cons)
        then show ?thesis
          using u2' qr q by (intro exI[of _ "bp # rest"]) (auto simp: xs)
      next
        assume "s_ptr (h' t) = s_ptr (h' bp)"
        with u2' c2 fr' p' l have "ring h' t rest"
          by (simp add: ring_def Cons)
        then show ?thesis
          using u2' qr q by (intro exI[of _ rest]) (auto simp: xs)
      qed
    qed
  qed
qed

lemma free_scan_Some:
  assumes "free_scan h bp p = Some t"
  shows "is_pos h bp t \<and> (\<exists>ys. path h p ys \<and> last (p # ys) = t)"
proof (rule free_scan.raw_induct[where P = "\<lambda>h bp p t.
          is_pos h bp t \<and> (\<exists>ys. path h p ys \<and> last (p # ys) = t)", OF _ assms])
  fix f h bp p t
  assume IH: "\<And>h bp p t. f h bp p = Some t \<Longrightarrow>
                is_pos h bp t \<and> (\<exists>ys. path h p ys \<and> last (p # ys) = t)"
    and eq: "(if p < bp \<and> bp < s_ptr (h p) then Some p
      else if s_ptr (h p) \<le> p \<and> (p < bp \<or> bp < s_ptr (h p)) then Some p
           else f h bp (s_ptr (h p))) = Some t"
  show "is_pos h bp t \<and> (\<exists>ys. path h p ys \<and> last (p # ys) = t)"
  proof (cases "is_pos h bp p")
    case True
    with eq have "t = p" by (auto simp: is_pos_def split: if_splits)
    with True show ?thesis by (auto intro: exI[of _ "[]"])
  next
    case False
    with eq have "f h bp (s_ptr (h p)) = Some t"
      by (auto simp: is_pos_def split: if_splits)
    from IH[OF this] obtain ys where "is_pos h bp t" "path h (s_ptr (h p)) ys"
      "last (s_ptr (h p) # ys) = t" by auto
    then show ?thesis
      by (auto intro!: exI[of _ "s_ptr (h p) # ys"])
  qed
qed

lemma ring_closed:
  assumes "ring h c xs"
  shows "x \<in> set xs \<Longrightarrow> path h x ys \<Longrightarrow> last (x # ys) \<in> set xs"
proof (induction ys arbitrary: x)
  case Nil
  then show ?case by simp
next
  case (Cons y ys)
  then have "y \<in> set xs"
    using ring_next_in[OF assms, of x] by auto
  with Cons show ?case by auto
qed

lemma join_upper_other: "a \<noteq> bp \<Longrightarrow> join_upper h bp p a = h a"
  by (simp add: join_upper_def set_ptr_def set_size_def Let_def)

lemma join_upper_ptr:
  "bp \<noteq> p \<Longrightarrow> bp \<noteq> s_ptr (h p) \<Longrightarrow>
   s_ptr (join_upper h bp p bp) = s_ptr (h p) \<or>
   s_ptr (join_upper h bp p bp) = s_ptr (h (s_ptr (h p)))"
  by (simp add: join_upper_def set_ptr_def set_size_def Let_def)

lemma join_lower_other: "a \<noteq> p \<Longrightarrow> join_lower h bp p a = h a"
  by (simp add: join_lower_def set_ptr_def set_size_def Let_def)

lemma join_lower_ptr:
  "bp \<noteq> p \<Longrightarrow> s_ptr (join_lower h bp p p) = bp \<or> s_ptr (join_lower h bp p p) = s_ptr (h bp)"
  by (simp add: join_lower_def set_ptr_def set_size_def Let_def)

lemma free_scan_ring:
  assumes "ring h c xs" "free_scan h bp c = Some t"
  shows "t \<in> set xs \<and> is_pos h bp t"
  using free_scan_Some[OF assms(2)] ring_closed[OF assms(1) ring_cursor_in[OF assms(1)]]
  by auto

lemma free_links_ring:
  assumes r: "ring h c xs" and t: "t \<in> set xs" and pos: "is_pos h bp t"
  shows "\<exists>ys. ring (join_lower (join_upper h bp t) bp t) t ys \<and> set ys \<subseteq> insert bp (set xs) \<and>
              set xs - {s_ptr (h t)} \<subseteq> set ys \<and>
              (s_ptr (join_upper h bp t bp) = s_ptr (h t) \<longrightarrow> s_ptr (h t) \<in> set ys)"
proof -
  from r t obtain zs where z: "ring h t zs" "set zs = set xs"
    by (rule ring_rotate)
  from ring_insert_pos[OF z(1) pos] have nin: "bp \<notin> set zs" by simp
  have tz: "t \<in> set zs" using z t by simp
  then have ne: "bp \<noteq> t" using nin by auto
  have "s_ptr (h t) \<in> set zs"
    using ring_next_in[OF z(1) tz] .
  then have ne2: "bp \<noteq> s_ptr (h t)" using nin by auto
  let ?h1 = "join_upper h bp t"
  let ?h2 = "join_lower ?h1 bp t"
  have "\<forall>a. a \<noteq> bp \<and> a \<noteq> t \<longrightarrow> s_ptr (?h2 a) = s_ptr (h a)"
    by (simp add: join_lower_other join_upper_other)
  moreover have b: "?h2 bp = ?h1 bp"
    using ne by (simp add: join_lower_other)
  then have "s_ptr (?h2 bp) = s_ptr (h t) \<or> s_ptr (?h2 bp) = s_ptr (h (s_ptr (h t)))"
    using join_upper_ptr[of bp t h] ne ne2 by simp
  moreover have "s_ptr (?h2 t) = bp \<or> s_ptr (?h2 t) = s_ptr (?h2 bp)"
    using join_lower_ptr[of bp t ?h1] ne b by simp
  ultimately have "\<exists>ys. ring ?h2 t ys \<and> set ys \<subseteq> insert bp (set zs) \<and>
              set zs - {s_ptr (h t)} \<subseteq> set ys \<and>
              (s_ptr (?h2 bp) = s_ptr (h t) \<longrightarrow> s_ptr (h t) \<in> set ys)"
    by (rule ring_relink[OF z(1) pos])
  then show ?thesis using z(2) b by simp
qed

lemma free_ring:
  assumes "ring (hdr s) (freep s) xs" "free s ap = Some s'"
  shows "\<exists>ys. ring (hdr s') (freep s') ys \<and> set ys \<subseteq> insert (ap - sizeof_Header) (set xs)"
proof (cases "ap = NULL")
  case True
  with assms show ?thesis by (auto simp: free_def)
next
  case False
  with assms(2) obtain t where t: "free_scan (hdr s) (ap - sizeof_Header) (freep s) = Some t"
    and s': "s' = s\<lparr>hdr := join_lower (join_upper (hdr s) (ap - sizeof_Header) t)
                 (ap - sizeof_Header) t, freep := t\<rparr>"
    by (auto simp: free_def Let_def split: option.splits)
  from free_scan_ring[OF assms(1) t] free_links_ring[OF assms(1), of t "ap - sizeof_Header"]
  show ?thesis by (auto simp: s')
qed

lemma ring_ptr_cong: "(\<And>a. s_ptr (h' a) = s_ptr (h a)) \<Longrightarrow> ring h' c xs = ring h c xs"
  by (simp add: ring_def path_ptr_cong[of h' h])

lemma ring_set_size: "ring (set_size h a v) c xs = ring h c xs"
  by (rule ring_ptr_cong) (simp add: set_size_def)

lemma unlink_ring:
  assumes r: "ring h c xs" and pv: "prevp \<in> set xs"
  shows "\<exists>ys. ring (set_ptr h prevp (s_ptr (h (s_ptr (h prevp))))) prevp ys \<and> set ys \<subseteq> set xs"
proof -
  let ?h' = "set_ptr h prevp (s_ptr (h (s_ptr (h prevp))))"
  from r pv obtain zs where z: "ring h prevp zs" "set zs = set xs"
    by (rule ring_rotate)
  then obtain p rest where zs: "zs = p # rest" and p: "p = s_ptr (h prevp)"
    and pa: "path h p rest" and l: "last (p # rest) = prevp" and cz: "cyc_sorted zs"
    by (cases zs) (auto simp: ring_def)
  have d: "distinct (p # rest)"
    using cyc_sorted_distinct[OF cz] zs by simp
  show ?thesis
  proof (cases rest)
    case Nil
    with l p have "s_ptr (h prevp) = prevp" by simp
    then have "ring ?h' prevp zs = ring h prevp zs"
      by (intro ring_ptr_cong) (simp add: set_ptr_def)
    with z show ?thesis by auto
  next
    case (Cons r' rest')
    with pa have pn: "s_ptr (h p) = r'" and p': "path h r' rest'" by auto
    have d': "distinct (r' # rest')" and l': "last (r' # rest') = prevp"
      using d l by (auto simp: Cons)
    have "prevp \<notin> set (butlast (r' # rest'))"
      using last_notin_butlast[OF d'] l' by simp
    then have "path ?h' r' rest' = path h r' rest'"
      by (cases "rest' = []") (auto intro!: path_frame simp: set_ptr_def)
    moreover have "s_ptr (?h' prevp) = r'"
      using pn p by (simp add: set_ptr_def)
    moreover have "cyc_sorted rest"
      using cz unfolding zs by (rule cyc_sorted_tl) (simp add: Cons)
    ultimately have "ring ?h' prevp rest"
      using p' l' by (simp add: ring_def Cons)
    then show ?thesis
      using z(2) zs by (intro exI[of _ rest]) auto
  qed
qed

lemma unlink_block_ring:
  assumes "ring (hdr s) (freep s) xs" "prevp \<in> set xs" "p = s_ptr (hdr s prevp)"
  shows "\<exists>ys. ring (hdr (fst (unlink_block s prevp p))) (freep (fst (unlink_block s prevp p))) ys
            \<and> set ys \<subseteq> set xs"
  using unlink_ring[OF assms(1,2)] assms(3) by (simp add: unlink_block_def)

lemma split_block_ring:
  assumes "ring (hdr s) (freep s) xs" "prevp \<in> set xs"
  shows "\<exists>ys. ring (hdr (fst (split_block s n prevp p))) (freep (fst (split_block s n prevp p))) ys
            \<and> set ys = set xs"
proof -
  from assms obtain zs where "ring (hdr s) prevp zs" "set zs = set xs"
    by (rule ring_rotate)
  then show ?thesis
    by (auto simp: split_block_def Let_def ring_set_size)
qed

lemma morecore_ring:
  assumes "ring (hdr s) (freep s) xs" "morecore s n = Some (s', r)"
  shows "(\<exists>ys. ring (hdr s') (freep s') ys) \<and> (r = NULL \<or> r = freep s')"
proof (cases "sbrk s (unat ((ucast (if n < NALLOC then NALLOC else n) :: 64 word) * 16))")
  case None
  with assms show ?thesis by (auto simp: morecore_def Let_def)
next
  case (Some a)
  obtain s1 cp where a: "a = (s1, cp)" by (cases a)
  with Some have s1: "hdr s1 = hdr s" "freep s1 = freep s"
    by (auto simp: sbrk_def split: if_splits)
  let ?s2 = "s1\<lparr>hdr := set_size (hdr s1) cp (if n < NALLOC then NALLOC else n)\<rparr>"
  from assms(2) Some a have f: "free ?s2 (cp + sizeof_Header) = Some s'" and r: "r = freep s'"
    by (auto simp: morecore_def Let_def split: option.splits)
  have "ring (hdr ?s2) (freep ?s2) xs"
    using assms(1) s1 by (simp add: ring_set_size)
  from free_ring[OF this f] r show ?thesis by auto
qed

lemma first_fit_ring:
  assumes "first_fit s nunits prevp p = Some y"
  shows "\<forall>xs. ring (hdr s) (freep s) xs \<and> prevp \<in> set xs \<and> p = s_ptr (hdr s prevp) \<longrightarrow>
           (\<exists>ys. ring (hdr (fst y)) (freep (fst y)) ys)"
proof (rule first_fit.raw_induct[where P = "\<lambda>s nunits prevp p y.
          \<forall>xs. ring (hdr s) (freep s) xs \<and> prevp \<in> set xs \<and> p = s_ptr (hdr s prevp) \<longrightarrow>
           (\<exists>ys. ring (hdr (fst y)) (freep (fst y)) ys)", OF _ assms])
  fix f s nunits prevp p y
  assume IH: "\<And>s nunits prevp p y. f s nunits prevp p = Some y \<Longrightarrow>
          \<forall>xs. ring (hdr s) (freep s) xs \<and> prevp \<in> set xs \<and> p = s_ptr (hdr s prevp) \<longrightarrow>
           (\<exists>ys. ring (hdr (fst y)) (freep (fst y)) ys)"
    and eq: "(if nunits \<le> s_size (hdr s p)
      then if s_size (hdr s p) = nunits then Some (unlink_block s prevp p)
           else Some (split_block s nunits prevp p)
      else if p = freep s
           then case morecore s nunits of None \<Rightarrow> None
                | Some (s', p') \<Rightarrow>
                    if p' = NULL then Some (s', NULL)
                    else f s' nunits p' (s_ptr (hdr s' p'))
           else f s nunits p (s_ptr (hdr s p))) = Some y"
  show "\<forall>xs. ring (hdr s) (freep s) xs \<and> prevp \<in> set xs \<and> p = s_ptr (hdr s prevp) \<longrightarrow>
           (\<exists>ys. ring (hdr (fst y)) (freep (fst y)) ys)"
  proof (intro allI impI, elim conjE)
    fix xs
    assume r: "ring (hdr s) (freep s) xs" and pv: "prevp \<in> set xs" and p: "p = s_ptr (hdr s prevp)"
    have pin: "p \<in> set xs"
      using ring_next_in[OF r pv] p by simp
    show "\<exists>ys. ring (hdr (fst y)) (freep (fst y)) ys"
    proof (cases "nunits \<le> s_size (hdr s p)")
      case True
      with eq have "y = unlink_block s prevp p \<or> y = split_block s nunits prevp p"
        by (simp split: if_splits)
      with unlink_block_ring[OF r pv p] split_block_ring[OF r pv, of nunits p]
      show ?thesis by auto
    next
      case False
      show ?thesis
      proof (cases "p = freep s")
        case True
        with False eq obtain s' p' where m: "morecore s nunits = Some (s', p')"
          and y: "(if p' = NULL then Some (s', NULL) else f s' nunits p' (s_ptr (hdr s' p'))) = Some y"
          by (cases "morecore s nunits") auto
        from morecore_ring[OF r m] obtain ys where
          ys: "ring (hdr s') (freep s') ys" "p' = NULL \<or> p' = freep s'" by auto
        show ?thesis
        proof (cases "p' = NULL")
          case True
          with y ys show ?thesis by auto
        next
          case False
          with y have "f s' nunits p' (s_ptr (hdr s' p')) = Some y" by simp
          from IH[OF this] ys False ring_cursor_in[OF ys(1)] show ?thesis by auto
        qed
      next
        case np: False
        with False eq have "f s nunits p (s_ptr (hdr s p)) = Some y" by simp
        from IH[OF this] r pin show ?thesis by auto
      qed
    qed
  qed
qed

lemma best_fit_ring:
  assumes "best_fit s nunits prevp p p_best prevp_best = Some y"
  shows "\<forall>xs. ring (hdr s) (freep s) xs \<and> prevp \<in> set xs \<and> p = s_ptr (hdr s prevp) \<and>
              (p_best \<noteq> NULL \<longrightarrow> prevp_best \<in> set xs) \<longrightarrow>
           (\<exists>ys. ring (hdr (fst y)) (freep (fst y)) ys)"
proof (rule best_fit.raw_induct[where P = "\<lambda>s nunits prevp p p_best prevp_best y.
          \<forall>xs. ring (hdr s) (freep s) xs \<and> prevp \<in> set xs \<and> p = s_ptr (hdr s prevp) \<and>
              (p_best \<noteq> NULL \<longrightarrow> prevp_best \<in> set xs) \<longrightarrow>
           (\<exists>ys. ring (hdr (fst y)) (freep (fst y)) ys)", OF _ assms])
  fix f s nunits prevp p p_best prevp_best y
  assume IH: "\<And>s nunits prevp p p_best prevp_best y.
          f s nunits prevp p p_best prevp_best = Some y \<Longrightarrow>
          \<forall>xs. ring (hdr s) (freep s) xs \<and> prevp \<in> set xs \<and> p = s_ptr (hdr s prevp) \<and>
              (p_best \<noteq> NULL \<longrightarrow> prevp_best \<in> set xs) \<longrightarrow>
           (\<exists>ys. ring (hdr (fst y)) (freep (fst y)) ys)"
    and eq: "(if s_size (hdr s p) = nunits then Some (unlink_block s prevp p)
      else let better =
                 (p_best = NULL \<or>
                  s_size (hdr s p) < s_size (hdr s p_best)) \<and>
                 nunits < s_size (hdr s p);
               p_best1 = if better then p else p_best;
               prevp_best1 = if better then prevp else prevp_best
           in if p = freep s
              then if p_best1 \<noteq> NULL
                   then Some (split_block s nunits prevp_best1 p_best1)
                   else case morecore s nunits of None \<Rightarrow> None
                        | Some (s', p') \<Rightarrow>
                            if p' = NULL then Some (s', NULL)
                            else f s' nunits p' (s_ptr (hdr s' p'))
                                  p_best1 prevp_best1
              else f s nunits p (s_ptr (hdr s p)) p_best1
                    prevp_best1) = Some y"
  show "\<forall>xs. ring (hdr s) (freep s) xs \<and> prevp \<in> set xs \<and> p = s_ptr (hdr s prevp) \<and>
              (p_best \<noteq> NULL \<longrightarrow> prevp_best \<in> set xs) \<longrightarrow>
           (\<exists>ys. ring (hdr (fst y)) (freep (fst y)) ys)"
  proof (intro allI impI, elim conjE)
    fix xs
    assume r: "ring (hdr s) (freep s) xs" and pv: "prevp \<in> set xs" and p: "p = s_ptr (hdr s prevp)"
      and pb: "p_best \<noteq> NULL \<longrightarrow> prevp_best \<in> set xs"
    have pin: "p \<in> set xs"
      using ring_next_in[OF r pv] p by simp
    let ?better = "(p_best = NULL \<or> s_size (hdr s p) < s_size (hdr s p_best))
                        \<and> nunits < s_size (hdr s p)"
    define pb1 where "pb1 = (if ?better then p else p_best)"
    define ppb1 where "ppb1 = (if ?better then prevp else prevp_best)"
    have pb1: "pb1 \<noteq> NULL \<longrightarrow> ppb1 \<in> set xs"
      using pb pv by (auto simp: pb1_def ppb1_def)
    show "\<exists>ys. ring (hdr (fst y)) (freep (fst y)) ys"
    proof (cases "s_size (hdr s p) = nunits")
      case True
      with eq have "y = unlink_block s prevp p" by simp
      with unlink_block_ring[OF r pv p] show ?thesis by auto
    next
      case False
      with eq have eq': "(if p = freep s
              then if pb1 \<noteq> NULL
                   then Some (split_block s nunits ppb1 pb1)
                   else case morecore s nunits of None \<Rightarrow> None
                        | Some (s', p') \<Rightarrow>
                            if p' = NULL then Some (s', NULL)
                            else f s' nunits p' (s_ptr (hdr s' p')) pb1 ppb1
              else f s nunits p (s_ptr (hdr s p)) pb1 ppb1) = Some y"
        unfolding Let_def pb1_def ppb1_def by (simp only: if_False)
      show ?thesis
      proof (cases "p = freep s")
        case True
        show ?thesis
        proof (cases "pb1 \<noteq> NULL")
          case True
          with eq' \<open>p = freep s\<close> have "y = split_block s nunits ppb1 pb1" by simp
          with split_block_ring[OF r, of ppb1 nunits pb1] pb1 True show ?thesis by auto
        next
          case nb: False
          with True eq' obtain s' p' where m: "morecore s nunits = Some (s', p')"
            and y: "(if p' = NULL then Some (s', NULL)
                     else f s' nunits p' (s_ptr (hdr s' p')) pb1 ppb1) = Some y"
            by (cases "morecore s nunits") auto
          from morecore_ring[OF r m] obtain ys where
            ys: "ring (hdr s') (freep s') ys" "p' = NULL \<or> p' = freep s'" by auto
          show ?thesis
          proof (cases "p' = NULL")
            case True
            with y ys show ?thesis by auto
          next
            case False
            with y have "f s' nunits p' (s_ptr (hdr s' p')) pb1 ppb1 = Some y" by simp
            from IH[OF this] ys False nb ring_cursor_in[OF ys(1)] show ?thesis by auto
          qed
        qed
      next
        case False
        with eq' have "f s nunits p (s_ptr (hdr s p)) pb1 ppb1 = Some y" by simp
        from IH[OF this] r pin pb1 show ?thesis by auto
      qed
    qed
  qed
qed

lemma bootstrap_ring:
  assumes "freep s = NULL \<or> (\<exists>xs. ring (hdr s) (freep s) xs)"
  shows "\<exists>ys. ring (hdr (bootstrap s)) (freep (bootstrap s)) ys"
proof (cases "freep s = NULL")
  case True
  then have "ring (hdr (bootstrap s)) (freep (bootstrap s)) [base s]"
    by (simp add: bootstrap_def ring_def set_size_def set_ptr_def cyc_sorted_def)
  then show ?thesis ..
next
  case False
  with assms show ?thesis by (simp add: bootstrap_def)
qed

lemma malloc_nonzero_ring:
  assumes "freep s = NULL \<or> (\<exists>xs. ring (hdr s) (freep s) xs)"
    and "nbytes \<noteq> 0" and "malloc strat s nbytes = Some (s', r)"
  shows "\<exists>ys. ring (hdr s') (freep s') ys"
proof -
  from bootstrap_ring[OF assms(1)] obtain xs where
    xs: "ring (hdr (bootstrap s)) (freep (bootstrap s)) xs" ..
  note c = ring_cursor_in[OF xs]
  show ?thesis
  proof (cases strat)
    case STRATEGY_FIRST
    with assms(2,3) have "first_fit (bootstrap s) (nunits_of nbytes) (freep (bootstrap s))
        (s_ptr (hdr (bootstrap s) (freep (bootstrap s)))) = Some (s', r)"
      by (simp add: malloc_def Let_def)
    from first_fit_ring[OF this] xs c show ?thesis by auto
  next
    case STRATEGY_BEST
    with assms(2,3) have "best_fit (bootstrap s) (nunits_of nbytes) (freep (bootstrap s))
        (s_ptr (hdr (bootstrap s) (freep (bootstrap s)))) NULL NULL = Some (s', r)"
      by (simp add: malloc_def Let_def)
    from best_fit_ring[OF this] xs c show ?thesis by auto
  qed
qed

lemma malloc_ring:
  assumes "ring (hdr s) (freep s) xs" and "malloc strat s nbytes = Some (s', r)"
  shows "\<exists>ys. ring (hdr s') (freep s') ys"
proof (cases "nbytes = 0")
  case True
  with assms show ?thesis by (auto simp: malloc_def)
next
  case False
  with assms malloc_nonzero_ring[of s nbytes strat s' r] show ?thesis by blast
qed

lemma path_ascending:
  "path h p xs \<Longrightarrow> sorted_wrt (<) (p # xs) \<Longrightarrow> wrap_points h (butlast (p # xs)) = []"
  by (induction xs arbitrary: p) (auto simp: wrap_points_def)

lemma path_tl: "xs \<noteq> [] \<Longrightarrow> path h p xs \<Longrightarrow> path h (hd xs) (tl xs)"
  by (cases xs) auto

lemma wrap_points_sorted:
  assumes "xs \<noteq> []" "path h p xs" "sorted_wrt (<) xs"
  shows "wrap_points h (butlast xs) = []"
  using path_ascending[of h "hd xs" "tl xs"] path_tl[OF assms(1,2)] assms(1,3) by simp

lemma wrap_points_snoc:
  "xs \<noteq> [] \<Longrightarrow> wrap_points h xs = wrap_points h (butlast xs) @ wrap_points h [last xs]"
  by (metis append_butlast_last_id filter_append wrap_points_def)

lemma ring_one_wrap:
  assumes "ring h c xs"
  shows "length (wrap_points h xs) = 1"
proof -
  from assms have ne: "xs \<noteq> []" and p: "path h c xs" and l: "last xs = c"
    and cs: "cyc_sorted xs" and hd: "hd xs = s_ptr (h c)"
    by (auto simp: ring_def ring_hd[OF assms])
  from cs obtain us vs where s: "xs = us @ vs" "sorted_wrt (<) (vs @ us)" "vs \<noteq> []"
    by (rule cyc_sorted_split)
  show ?thesis
  proof (cases "us = []")
    case True
    with s have sx: "sorted_wrt (<) xs" by simp
    have "s_ptr (h c) \<le> c"
      using sorted_wrt_bounds[OF sx last_in_set[OF ne]] hd l by simp
    then have "wrap_points h [last xs] = [c]"
      by (simp add: wrap_points_def l)
    with wrap_points_snoc[OF ne, of h] wrap_points_sorted[OF ne p sx] show ?thesis by simp
  next
    case False
    have pu: "path h c us" and pv: "path h (last us) vs"
      using p False by (auto simp: s(1) path_append)
    have sv: "sorted_wrt (<) vs" and su: "sorted_wrt (<) us"
      and lt: "\<forall>v\<in>set vs. \<forall>u\<in>set us. v < u"
      using s(2) by (auto simp: sorted_wrt_append)
    have lv: "last vs = c" using l s by simp
    have "s_ptr (h (last us)) = hd vs"
      using pv s(3) by (cases vs) auto
    then have "s_ptr (h (last us)) \<le> last us"
      using lt s(3) False by (simp add: less_imp_le)
    then have wu: "wrap_points h [last us] = [last us]"
      by (simp add: wrap_points_def)
    have "hd us = s_ptr (h c)"
      using hd False by (simp add: s(1))
    then have "c < s_ptr (h c)"
      using lt s(3) False lv by (metis hd_in_set last_in_set)
    then have wv: "wrap_points h [last vs] = []"
      by (simp add: wrap_points_def lv)
    have "wrap_points h xs = wrap_points h us @ wrap_points h vs"
      by (simp add: s(1) wrap_points_def)
    with wrap_points_snoc[OF False, of h] wrap_points_snoc[OF s(3), of h]
      wrap_points_sorted[OF False pu su] wrap_points_sorted[OF s(3) pv sv] wu wv
    show ?thesis by simp
  qed
qed

section \<open>Coalescing on release\<close>

lemma join_coalesced:
  assumes "bp \<noteq> p" "bp \<noteq> s_ptr (h p)"
  shows "join_lower (join_upper h bp p) bp p = coalesced h bp p"
  using assms
  by (auto simp: join_lower_def join_upper_def coalesced_def set_ptr_def set_size_def Let_def
      fun_eq_iff)

lemma ring_wrap_bounds:
  assumes "ring h c xs" "x \<in> set xs" "s_ptr (h x) \<le> x" "y \<in> set xs"
  shows "s_ptr (h x) \<le> y \<and> y \<le> x"
proof -
  from assms(1,2) obtain zs where z: "ring h x zs" "set zs = set xs"
    by (rule ring_rotate)
  then have ne: "zs \<noteq> []" and hd: "hd zs = s_ptr (h x)" and l: "last zs = x"
    and cs: "cyc_sorted zs"
    by (auto simp: ring_def ring_hd[OF z(1)])
  from cs obtain us vs where s: "zs = us @ vs" "sorted_wrt (<) (vs @ us)" "vs \<noteq> []"
    by (rule cyc_sorted_split)
  have "us = []"
  proof (rule ccontr)
    assume u: "us \<noteq> []"
    then have "hd us = s_ptr (h x)" "last vs = x"
      using hd l s by auto
    moreover have "last vs < hd us"
      using s(2,3) u by (auto simp: sorted_wrt_append)
    ultimately show False using assms(3) by simp
  qed
  with s have "sorted_wrt (<) zs" by simp
  from sorted_wrt_bounds[OF this, of y] assms(4) z(2) hd l show ?thesis by simp
qed

lemma ring_next_least:
  assumes "ring h c xs" "x \<in> set xs" "y \<in> set xs" "x < y"
  shows "x < s_ptr (h x) \<and> s_ptr (h x) \<le> y"
proof -
  have lt: "x < s_ptr (h x)"
    using ring_wrap_bounds[OF assms(1,2) _ assms(3)] assms(4) by force
  from assms(1,2) obtain zs where z: "ring h x zs" "set zs = set xs"
    by (rule ring_rotate)
  then have ne: "zs \<noteq> []" and hd: "hd zs = s_ptr (h x)" and l: "last zs = x"
    and cs: "cyc_sorted zs"
    by (auto simp: ring_def ring_hd[OF z(1)])
  from cs obtain us vs where s: "zs = us @ vs" "sorted_wrt (<) (vs @ us)" "vs \<noteq> []"
    by (rule cyc_sorted_split)
  have sv: "sorted_wrt (<) vs" and su: "sorted_wrt (<) us"
    using s(2) by (auto simp: sorted_wrt_append)
  have lv: "last vs = x" using l s by simp
  have "y \<notin> set vs"
    using sorted_wrt_bounds[OF sv, of y] lv assms(4) by auto
  then have yu: "y \<in> set us"
    using assms(3) z(2) s(1) by auto
  then have "hd us = s_ptr (h x)"
    using hd s(1) by (cases us) auto
  with sorted_wrt_bounds[OF su yu] lt show ?thesis by simp
qed

lemma no_contiguous_ring:
  assumes "ring h c xs" "separated h xs"
  shows "no_contiguous h xs"
  unfolding no_contiguous_def list_all_iff
proof (intro ballI)
  fix x y
  assume x: "x \<in> set xs" and y: "y \<in> set xs"
  show "x = y \<or> hplus x (s_size (h x)) \<noteq> y"
  proof (rule ccontr)
    assume "\<not> (x = y \<or> hplus x (s_size (h x)) \<noteq> y)"
    then have ne: "x \<noteq> y" and e: "hplus x (s_size (h x)) = y" by auto
    then have "x < y" by (auto simp: hplus_def)
    from ring_next_least[OF assms(1) x y this]
    have "x < s_ptr (h x)" "s_ptr (h x) \<le> y" by auto
    moreover from assms(2) x this(1) have "hplus x (s_size (h x)) < s_ptr (h x)"
      by (auto simp: separated_def list_all_iff)
    ultimately show False using e by simp
  qed
qed

lemma hplus_ge: "p \<le> hplus p n"
  by (simp add: hplus_def)

lemma hplus_add_le: "hplus p (m + n) \<le> hplus (hplus p m) n"
proof -
  have "unat (m + n) \<le> unat m + unat n"
    by (simp add: unat_word_ariths)
  then show ?thesis
    by (simp add: hplus_def sizeof_Header_def)
qed

lemma free_well_formed:
  assumes wf: "well_formed s xs" and rel: "releasable s xs ap" and f: "free s ap = Some s'"
  shows "nearest_below xs (ap - sizeof_Header) (freep s') \<and>
         hdr s' = coalesced (hdr s) (ap - sizeof_Header) (freep s') \<and>
         (\<exists>ys. well_formed s' ys \<and> no_contiguous (hdr s') ys \<and>
               set ys \<subseteq> insert (ap - sizeof_Header) (set xs))"
proof -
  define h where "h = hdr s"
  define bp where "bp = ap - sizeof_Header"
  define b where "b = base s"
  from wf have r: "ring h (freep s) xs" and bin: "b \<in> set xs" and bmin: "\<forall>x\<in>set xs. b \<le> x"
    and sep: "\<forall>x\<in>set xs. x < s_ptr (h x) \<longrightarrow> hplus x (s_size (h x)) < s_ptr (h x)"
    by (auto simp: well_formed_def separated_def list_all_iff h_def b_def)
  from rel have nn: "ap \<noteq> NULL" and above: "b < bp" and nin: "bp \<notin> set xs"
    and dis: "\<forall>x\<in>set xs. hplus x (s_size (h x)) \<le> bp \<or> hplus bp (s_size (h bp)) \<le> x"
    by (auto simp: releasable_def list_all_iff h_def b_def bp_def)
  from f nn obtain t where sc: "free_scan h bp (freep s) = Some t"
    and s': "s' = s\<lparr>hdr := join_lower (join_upper h bp t) bp t, freep := t\<rparr>"
    by (auto simp: free_def Let_def h_def bp_def split: option.splits)
  from free_scan_ring[OF r sc] have tin: "t \<in> set xs" and pos: "is_pos h bp t" by auto
  define q where "q = s_ptr (h t)"
  have qin: "q \<in> set xs"
    using ring_next_in[OF r tin] by (simp add: q_def)
  have ne: "bp \<noteq> t" "bp \<noteq> q"
    using nin tin qin by auto
  have h2: "join_lower (join_upper h bp t) bp t = coalesced h bp t"
    using ne by (intro join_coalesced) (auto simp: q_def)
  define h' where "h' = coalesced h bp t"
  have s'': "hdr s' = h'" "freep s' = t" "base s' = b"
    by (simp_all add: s' h2 h'_def b_def)
  \<comment> \<open>the block found lies below the freed block\<close>
  have wrapq: "q \<le> y \<and> y \<le> t" if "q \<le> t" "y \<in> set xs" for y
    using ring_wrap_bounds[OF r tin _ that(2)] that(1) unfolding q_def by blast
  have tlt: "t < bp"
  proof (rule ccontr)
    assume "\<not> t < bp"
    with pos have "q \<le> t" "bp < q" by (auto simp: is_pos_def q_def)
    with wrapq[OF _ bin] above show False by simp
  qed
  have nonwrap: "t < q \<Longrightarrow> bp < q"
    using pos by (auto simp: is_pos_def q_def)
  have near: "nearest_below xs bp t"
    unfolding nearest_below_def list_all_iff
  proof (intro conjI ballI impI)
    fix x assume x: "x \<in> set xs" "x < bp"
    show "x \<le> t"
    proof (rule ccontr)
      assume "\<not> x \<le> t"
      then have "t < x" by simp
      from ring_next_least[OF r tin x(1) this] have "t < q" "q \<le> x" by (auto simp: q_def)
      with nonwrap x(2) show False by simp
    qed
  qed (use tin tlt in auto)
  \<comment> \<open>the gap in which the freed block lies\<close>
  have g1: "hplus t (s_size (h t)) \<le> bp"
    using dis tin tlt hplus_ge[of bp "s_size (h bp)"] by force
  have g2: "bp < q \<Longrightarrow> hplus bp (s_size (h bp)) \<le> q"
    using dis qin hplus_ge[of q "s_size (h q)"] by force
  define U where "U \<longleftrightarrow> hplus bp (s_size (h bp)) = q"
  define L where "L \<longleftrightarrow> hplus t (s_size (h t)) = bp"
  define B where "B = (if U then \<lparr>s_ptr = s_ptr (h q), s_size = s_size (h bp) + s_size (h q)\<rparr>
                   else \<lparr>s_ptr = q, s_size = s_size (h bp)\<rparr>)"
  define T where "T = (if L then \<lparr>s_ptr = s_ptr B, s_size = s_size (h t) + s_size B\<rparr>
                   else \<lparr>s_ptr = bp, s_size = s_size (h t)\<rparr>)"
  have hB: "h' bp = B" and hT: "h' t = T" and hO: "\<And>a. a \<noteq> bp \<Longrightarrow> a \<noteq> t \<Longrightarrow> h' a = h a"
    using ne by (auto simp: h'_def coalesced_def Let_def B_def T_def U_def L_def q_def)
  have Ubp: "U \<Longrightarrow> bp < q"
    using hplus_ge[of bp "s_size (h bp)"] ne by (auto simp: U_def)
  have wrapr: "s_ptr (h q) \<le> b \<and> s_ptr (h q) \<le> t" if "s_ptr (h q) \<le> q"
    using ring_wrap_bounds[OF r qin that bin] ring_wrap_bounds[OF r qin that tin] by blast
  have edge_bp: "bp < s_ptr B \<Longrightarrow> hplus bp (s_size B) < s_ptr B"
  proof (cases U)
    case False
    assume "bp < s_ptr B"
    with False g2 show ?thesis by (auto simp: B_def U_def)
  next
    case True
    assume a: "bp < s_ptr B"
    then have br: "bp < s_ptr (h q)" using True by (simp add: B_def)
    have "q < s_ptr (h q)"
      using wrapr br above by force
    with sep qin have "hplus q (s_size (h q)) < s_ptr (h q)" by auto
    moreover have "hplus bp (s_size (h bp) + s_size (h q)) \<le> hplus q (s_size (h q))"
      using hplus_add_le[of bp "s_size (h bp)" "s_size (h q)"] True by (simp add: U_def)
    ultimately show ?thesis using True by (simp add: B_def)
  qed
  have edge_t: "t < s_ptr T \<Longrightarrow> hplus t (s_size T) < s_ptr T"
  proof (cases L)
    case False
    assume "t < s_ptr T"
    with False g1 show ?thesis by (auto simp: T_def L_def)
  next
    case True
    assume a: "t < s_ptr T"
    then have tb: "t < s_ptr B" using True by (simp add: T_def)
    have "bp < s_ptr B"
    proof (cases U)
      case False
      with tb nonwrap show ?thesis by (simp add: B_def)
    next
      case True
      with tb have "t < s_ptr (h q)" by (simp add: B_def)
      with wrapr have "q < s_ptr (h q)" by force
      with Ubp[OF True] True show ?thesis by (simp add: B_def)
    qed
    from edge_bp[OF this] have "hplus bp (s_size B) < s_ptr B" .
    moreover have "hplus t (s_size (h t) + s_size B) \<le> hplus bp (s_size B)"
      using hplus_add_le[of t "s_size (h t)" "s_size B"] True by (simp add: L_def)
    ultimately show ?thesis using True by (simp add: T_def)
  qed
  \<comment> \<open>the ring after the release\<close>
  from free_links_ring[OF r tin pos] obtain ys where
    ys: "ring h' t ys" "set ys \<subseteq> insert bp (set xs)" "set xs - {q} \<subseteq> set ys"
      "s_ptr (join_upper h bp t bp) = q \<longrightarrow> q \<in> set ys"
    unfolding h2 h'_def q_def by blast
  have jb: "join_upper h bp t bp = B"
    using ne by (auto simp: join_upper_def B_def U_def q_def set_ptr_def set_size_def Let_def)
  have sep': "separated h' ys"
    unfolding separated_def list_all_iff
  proof (intro ballI impI)
    fix x assume x: "x \<in> set ys" "x < s_ptr (h' x)"
    show "hplus x (s_size (h' x)) < s_ptr (h' x)"
    proof (cases "x = bp \<or> x = t")
      case True
      with x(2) edge_bp edge_t show ?thesis by (auto simp: hB hT)
    next
      case False
      with x ys(2) have "x \<in> set xs" by auto
      with sep x(2) False show ?thesis by (simp add: hO)
    qed
  qed
  have bin': "b \<in> set ys"
  proof (cases "b = q")
    case False
    with bin ys(3) show ?thesis by auto
  next
    case True
    with Ubp above have "\<not> U" by auto
    then have "s_ptr B = q" by (simp add: B_def)
    with ys(4) jb True show ?thesis by simp
  qed
  have bmin': "\<forall>x\<in>set ys. b \<le> x"
    using ys(2) bmin above by auto
  have wf': "well_formed s' ys"
    using ys(1) bin' bmin' sep' by (simp add: well_formed_def s'' list_all_iff)
  have "no_contiguous h' ys"
    using ys(1) sep' by (rule no_contiguous_ring)
  with wf' near ys(2) show ?thesis
    unfolding s'' bp_def[symmetric] h_def[symmetric] h'_def by blast
qed

lemma free_scan_walk:
  "path h p ys \<Longrightarrow> is_pos h bp (last (p # ys)) \<Longrightarrow> \<exists>t. free_scan h bp p = Some t"
proof (induction ys arbitrary: p)
  case Nil
  then show ?case
    by (subst free_scan.simps) (auto simp: is_pos_def)
next
  case (Cons y ys)
  show ?case
  proof (cases "is_pos h bp p")
    case True
    then show ?thesis
      by (subst free_scan.simps) (auto simp: is_pos_def)
  next
    case False
    from Cons.prems have "path h y ys" "is_pos h bp (last (y # ys))" "s_ptr (h p) = y"
      by auto
    from Cons.IH[OF this(1,2)] obtain t where "free_scan h bp y = Some t" ..
    with False \<open>s_ptr (h p) = y\<close> show ?thesis
      by (subst free_scan.simps) (auto simp: is_pos_def)
  qed
qed

lemma ring_has_pos:
  assumes "ring h c xs" "bp \<notin> set xs"
  shows "\<exists>t\<in>set xs. is_pos h bp t"
proof (cases "\<exists>x\<in>set xs. x < bp")
  case False
  define t where "t = Max (set xs)"
  have ne: "set xs \<noteq> {}" using assms(1) by (auto simp: ring_def)
  have tin: "t \<in> set xs" unfolding t_def using ne by (intro Max_in) auto
  have n: "s_ptr (h t) \<in> set xs" using ring_next_in[OF assms(1) tin] .
  then have "s_ptr (h t) \<le> t"
    unfolding t_def by (intro Max_ge) auto
  moreover have "bp < s_ptr (h t)"
    using False assms(2) n by (metis not_less_iff_gr_or_eq)
  ultimately have "s_ptr (h t) \<le> t" "bp < s_ptr (h t)" by auto
  then have "is_pos h bp t" by (simp add: is_pos_def)
  with tin show ?thesis ..
next
  case True
  define S where "S = {x \<in> set xs. x < bp}"
  define t where "t = Max S"
  have "finite S" "S \<noteq> {}" using True by (auto simp: S_def)
  then have tS: "t \<in> S" unfolding t_def by (rule Max_in)
  then have tin: "t \<in> set xs" and tlt: "t < bp" by (auto simp: S_def)
  have nin: "s_ptr (h t) \<in> set xs" using ring_next_in[OF assms(1) tin] .
  have "is_pos h bp t"
  proof (cases "bp < s_ptr (h t)")
    case True
    with tlt show ?thesis by (simp add: is_pos_def)
  next
    case False
    with nin assms(2) have "s_ptr (h t) < bp" by (auto simp: not_less le_less)
    with nin have "s_ptr (h t) \<in> S" by (simp add: S_def)
    then have "s_ptr (h t) \<le> t" unfolding t_def using \<open>finite S\<close> by (intro Max_ge)
    with tlt show ?thesis by (simp add: is_pos_def)
  qed
  with tin show ?thesis ..
qed

lemma free_scan_terminates:
  assumes "ring h c xs" "bp \<notin> set xs"
  shows "\<exists>t. free_scan h bp c = Some t"
proof -
  from ring_has_pos[OF assms] obtain t where t: "t \<in> set xs" "is_pos h bp t" ..
  from t(1) obtain as bs where xs: "xs = as @ t # bs" by (meson split_list)
  with assms(1) have "path h c (as @ [t])"
    by (auto simp: ring_def path_append)
  moreover have "is_pos h bp (last (c # as @ [t]))" using t(2) by simp
  ultimately show ?thesis by (rule free_scan_walk)
qed




section \<open>A rule for the loops of malloc\<close>

lemma first_fit_rule:
  assumes run: "first_fit s n prevp p = Some y"
    and inv: "I s prevp" and p: "p = s_ptr (hdr s prevp)"
    and adv: "\<And>s prevp. I s prevp \<Longrightarrow> \<not> n \<le> s_size (hdr s (s_ptr (hdr s prevp))) \<Longrightarrow>
                s_ptr (hdr s prevp) \<noteq> freep s \<Longrightarrow> I s (s_ptr (hdr s prevp))"
    and grow: "\<And>s prevp s' r. I s prevp \<Longrightarrow> \<not> n \<le> s_size (hdr s (s_ptr (hdr s prevp))) \<Longrightarrow>
                s_ptr (hdr s prevp) = freep s \<Longrightarrow> morecore s n = Some (s', r) \<Longrightarrow>
                r \<noteq> NULL \<Longrightarrow> I s' r"
    and fail: "\<And>s prevp s'. I s prevp \<Longrightarrow> \<not> n \<le> s_size (hdr s (s_ptr (hdr s prevp))) \<Longrightarrow>
                s_ptr (hdr s prevp) = freep s \<Longrightarrow> morecore s n = Some (s', NULL) \<Longrightarrow>
                Q (s', NULL)"
    and unl: "\<And>s prevp. I s prevp \<Longrightarrow> s_size (hdr s (s_ptr (hdr s prevp))) = n \<Longrightarrow>
                Q (unlink_block s prevp (s_ptr (hdr s prevp)))"
    and spl: "\<And>s prevp. I s prevp \<Longrightarrow> n < s_size (hdr s (s_ptr (hdr s prevp))) \<Longrightarrow>
                Q (split_block s n prevp (s_ptr (hdr s prevp)))"
  shows "Q y"
proof -
  have "n = n \<longrightarrow> I s prevp \<longrightarrow> p = s_ptr (hdr s prevp) \<longrightarrow> Q y"
  proof (rule first_fit.raw_induct[where P = "\<lambda>s n' prevp p y.
            n' = n \<longrightarrow> I s prevp \<longrightarrow> p = s_ptr (hdr s prevp) \<longrightarrow> Q y", OF _ run])
    fix f s n' prevp p y
    assume IH: "\<And>s n' prevp p y. f s n' prevp p = Some y \<Longrightarrow>
                  n' = n \<longrightarrow> I s prevp \<longrightarrow> p = s_ptr (hdr s prevp) \<longrightarrow> Q y"
      and eq: "(if n' \<le> s_size (hdr s p)
        then if s_size (hdr s p) = n' then Some (unlink_block s prevp p)
             else Some (split_block s n' prevp p)
        else if p = freep s
             then case morecore s n' of None \<Rightarrow> None
                  | Some (s', p') \<Rightarrow>
                      if p' = NULL then Some (s', NULL)
                      else f s' n' p' (s_ptr (hdr s' p'))
             else f s n' p (s_ptr (hdr s p))) = Some y"
    show "n' = n \<longrightarrow> I s prevp \<longrightarrow> p = s_ptr (hdr s prevp) \<longrightarrow> Q y"
    proof (intro impI)
      assume n: "n' = n" and i: "I s prevp" and p: "p = s_ptr (hdr s prevp)"
      show "Q y"
      proof (cases "n \<le> s_size (hdr s p)")
        case True
        show ?thesis
        proof (cases "s_size (hdr s p) = n")
          case True
          with eq n have "y = unlink_block s prevp p" by simp
          with unl[OF i] True p show ?thesis by simp
        next
          case False
          with True eq n have "y = split_block s n prevp p" by simp
          with spl[OF i] True False p show ?thesis by simp
        qed
      next
        case False
        show ?thesis
        proof (cases "p = freep s")
          case True
          with False eq n obtain s' p' where m: "morecore s n = Some (s', p')"
            and y: "(if p' = NULL then Some (s', NULL) else f s' n p' (s_ptr (hdr s' p'))) = Some y"
            by (cases "morecore s n") auto
          show ?thesis
          proof (cases "p' = NULL")
            case pn: True
            with y have "y = (s', NULL)" by simp
            with fail[OF i _ _ m[unfolded pn]] False True p show ?thesis by simp
          next
            case pn: False
            with y have "f s' n p' (s_ptr (hdr s' p')) = Some y" by simp
            from IH[OF this] grow[OF i _ _ m pn] False True p show ?thesis by simp
          qed
        next
          case np: False
          with False eq n have "f s n p (s_ptr (hdr s p)) = Some y" by simp
          from IH[OF this] adv[OF i] False np p show ?thesis by simp
        qed
      qed
    qed
  qed
  with inv p show ?thesis by simp
qed

lemma best_fit_rule:
  assumes run: "best_fit s n prevp p p_best prevp_best = Some y"
    and inv: "I s prevp p_best prevp_best" and p: "p = s_ptr (hdr s prevp)"
    and adv: "\<And>s prevp p_best prevp_best p better.
                I s prevp p_best prevp_best \<Longrightarrow> p = s_ptr (hdr s prevp) \<Longrightarrow>
                s_size (hdr s p) \<noteq> n \<Longrightarrow> p \<noteq> freep s \<Longrightarrow>
                better = ((p_best = NULL \<or> s_size (hdr s p) < s_size (hdr s p_best))
                           \<and> n < s_size (hdr s p)) \<Longrightarrow>
                I s p (if better then p else p_best) (if better then prevp else prevp_best)"
    and grow: "\<And>s prevp p_best prevp_best p better s' r.
                I s prevp p_best prevp_best \<Longrightarrow> p = s_ptr (hdr s prevp) \<Longrightarrow>
                s_size (hdr s p) \<noteq> n \<Longrightarrow> p = freep s \<Longrightarrow>
                better = ((p_best = NULL \<or> s_size (hdr s p) < s_size (hdr s p_best))
                           \<and> n < s_size (hdr s p)) \<Longrightarrow>
                (if better then p else p_best) = NULL \<Longrightarrow>
                morecore s n = Some (s', r) \<Longrightarrow> r \<noteq> NULL \<Longrightarrow>
                I s' r NULL (if better then prevp else prevp_best)"
    and fail: "\<And>s prevp p_best prevp_best p s'.
                I s prevp p_best prevp_best \<Longrightarrow> p = s_ptr (hdr s prevp) \<Longrightarrow>
                s_size (hdr s p) \<noteq> n \<Longrightarrow> p = freep s \<Longrightarrow>
                morecore s n = Some (s', NULL) \<Longrightarrow> Q (s', NULL)"
    and unl: "\<And>s prevp p_best prevp_best. I s prevp p_best prevp_best \<Longrightarrow>
                s_size (hdr s (s_ptr (hdr s prevp))) = n \<Longrightarrow>
                Q (unlink_block s prevp (s_ptr (hdr s prevp)))"
    and spl: "\<And>s prevp p_best prevp_best p better.
                I s prevp p_best prevp_best \<Longrightarrow> p = s_ptr (hdr s prevp) \<Longrightarrow>
                s_size (hdr s p) \<noteq> n \<Longrightarrow> p = freep s \<Longrightarrow>
                better = ((p_best = NULL \<or> s_size (hdr s p) < s_size (hdr s p_best))
                           \<and> n < s_size (hdr s p)) \<Longrightarrow>
                (if better then p else p_best) \<noteq> NULL \<Longrightarrow>
                Q (split_block s n (if better then prevp else prevp_best)
                     (if better then p else p_best))"
  shows "Q y"
proof -
  have "n = n \<longrightarrow> I s prevp p_best prevp_best \<longrightarrow> p = s_ptr (hdr s prevp) \<longrightarrow> Q y"
  proof (rule best_fit.raw_induct[where P = "\<lambda>s n' prevp p p_best prevp_best y.
            n' = n \<longrightarrow> I s prevp p_best prevp_best \<longrightarrow> p = s_ptr (hdr s prevp) \<longrightarrow> Q y",
          OF _ run])
    fix f s n' prevp p p_best prevp_best y
    assume IH: "\<And>s n' prevp p p_best prevp_best y.
                  f s n' prevp p p_best prevp_best = Some y \<Longrightarrow>
                  n' = n \<longrightarrow> I s prevp p_best prevp_best \<longrightarrow> p = s_ptr (hdr s prevp) \<longrightarrow> Q y"
      and eq: "(if s_size (hdr s p) = n' then Some (unlink_block s prevp p)
        else let better =
                   (p_best = NULL \<or>
                    s_size (hdr s p) < s_size (hdr s p_best)) \<and>
                   n' < s_size (hdr s p);
                 p_best1 = if better then p else p_best;
                 prevp_best1 = if better then prevp else prevp_best
             in if p = freep s
                then if p_best1 \<noteq> NULL
                     then Some (split_block s n' prevp_best1 p_best1)
                     else case morecore s n' of None \<Rightarrow> None
                          | Some (s', p') \<Rightarrow>
                              if p' = NULL then Some (s', NULL)
                              else f s' n' p' (s_ptr (hdr s' p'))
                                    p_best1 prevp_best1
                else f s n' p (s_ptr (hdr s p)) p_best1
                      prevp_best1) = Some y"
    show "n' = n \<longrightarrow> I s prevp p_best prevp_best \<longrightarrow> p = s_ptr (hdr s prevp) \<longrightarrow> Q y"
    proof (intro impI)
      assume n: "n' = n" and i: "I s prevp p_best prevp_best" and p: "p = s_ptr (hdr s prevp)"
      let ?better = "(p_best = NULL \<or> s_size (hdr s p) < s_size (hdr s p_best))
                        \<and> n < s_size (hdr s p)"
      define pb1 where "pb1 = (if ?better then p else p_best)"
      define ppb1 where "ppb1 = (if ?better then prevp else prevp_best)"
      show "Q y"
      proof (cases "s_size (hdr s p) = n")
        case True
        with eq n have "y = unlink_block s prevp p" by simp
        with unl[OF i] True p show ?thesis by simp
      next
        case False
        with eq n have eq': "(if p = freep s
                then if pb1 \<noteq> NULL
                     then Some (split_block s n ppb1 pb1)
                     else case morecore s n of None \<Rightarrow> None
                          | Some (s', p') \<Rightarrow>
                              if p' = NULL then Some (s', NULL)
                              else f s' n p' (s_ptr (hdr s' p')) pb1 ppb1
                else f s n p (s_ptr (hdr s p)) pb1 ppb1) = Some y"
          unfolding Let_def pb1_def ppb1_def by (simp only: if_False)
        show ?thesis
        proof (cases "p = freep s")
          case True
          show ?thesis
          proof (cases "pb1 \<noteq> NULL")
            case nb: True
            with eq' True have "y = split_block s n ppb1 pb1" by simp
            with spl[OF i p False True refl] nb show ?thesis
              by (simp add: pb1_def ppb1_def)
          next
            case nb: False
            then have pb1n: "pb1 = NULL" by simp
            from nb True eq' obtain s' p' where m: "morecore s n = Some (s', p')"
              and y: "(if p' = NULL then Some (s', NULL)
                       else f s' n p' (s_ptr (hdr s' p')) pb1 ppb1) = Some y"
              by (cases "morecore s n") auto
            show ?thesis
            proof (cases "p' = NULL")
              case pn: True
              with y have "y = (s', NULL)" by simp
              with fail[OF i p False True m[unfolded pn]] show ?thesis by simp
            next
              case pn: False
              with y have "f s' n p' (s_ptr (hdr s' p')) pb1 ppb1 = Some y" by simp
              from IH[OF this] grow[OF i p False True refl pb1n[unfolded pb1_def] m pn] pb1n
              show ?thesis by (simp add: ppb1_def)
            qed
          qed
        next
          case np: False
          with eq' have "f s n p (s_ptr (hdr s p)) pb1 ppb1 = Some y" by simp
          from IH[OF this] adv[OF i p False np refl] show ?thesis
            by (simp add: pb1_def ppb1_def)
        qed
      qed
    qed
  qed
  with inv p show ?thesis by simp
qed

lemma malloc_rule:
  assumes run: "malloc strat s nbytes = Some y" and nz: "nbytes \<noteq> 0"
    and inv: "I (bootstrap s) (freep (bootstrap s))"
    and adv: "\<And>s prevp. I s prevp \<Longrightarrow> s_ptr (hdr s prevp) \<noteq> freep s \<Longrightarrow>
                I s (s_ptr (hdr s prevp))"
    and grow: "\<And>s prevp s' r. I s prevp \<Longrightarrow> s_ptr (hdr s prevp) = freep s \<Longrightarrow>
                morecore s (nunits_of nbytes) = Some (s', r) \<Longrightarrow> r \<noteq> NULL \<Longrightarrow> I s' r"
    and fail: "\<And>s prevp s'. I s prevp \<Longrightarrow> s_ptr (hdr s prevp) = freep s \<Longrightarrow>
                morecore s (nunits_of nbytes) = Some (s', NULL) \<Longrightarrow> Q (s', NULL)"
    and unl: "\<And>s prevp. I s prevp \<Longrightarrow>
                s_size (hdr s (s_ptr (hdr s prevp))) = nunits_of nbytes \<Longrightarrow>
                Q (unlink_block s prevp (s_ptr (hdr s prevp)))"
    and spl: "\<And>s prevp. I s prevp \<Longrightarrow>
                nunits_of nbytes < s_size (hdr s (s_ptr (hdr s prevp))) \<Longrightarrow>
                Q (split_block s (nunits_of nbytes) prevp (s_ptr (hdr s prevp)))"
  shows "Q y"
proof (cases strat)
  case STRATEGY_FIRST
  with run nz have f: "first_fit (bootstrap s) (nunits_of nbytes) (freep (bootstrap s))
        (s_ptr (hdr (bootstrap s) (freep (bootstrap s)))) = Some y"
    by (simp add: malloc_def Let_def)
  show ?thesis
    by (rule first_fit_rule[OF f, where I = I, OF inv refl])
       (auto intro: adv grow fail unl spl)
next
  case STRATEGY_BEST
  with run nz have f: "best_fit (bootstrap s) (nunits_of nbytes) (freep (bootstrap s))
        (s_ptr (hdr (bootstrap s) (freep (bootstrap s)))) NULL NULL = Some y"
    by (simp add: malloc_def Let_def)
  define J where "J = (\<lambda>s prevp p_best prevp_best. I s prevp \<and>
      (p_best \<noteq> NULL \<longrightarrow> I s prevp_best \<and> p_best = s_ptr (hdr s prevp_best) \<and>
         nunits_of nbytes < s_size (hdr s p_best)))"
  have j0: "J (bootstrap s) (freep (bootstrap s)) NULL NULL"
    using inv by (simp add: J_def)
  show ?thesis
  proof (rule best_fit_rule[OF f, where I = J, OF j0 refl])
    fix s prevp p_best prevp_best p better
    assume "J s prevp p_best prevp_best" "p = s_ptr (hdr s prevp)" "p \<noteq> freep s"
      "better = ((p_best = NULL \<or> s_size (hdr s p) < s_size (hdr s p_best))
                           \<and> nunits_of nbytes < s_size (hdr s p))"
    then show "J s p (if better then p else p_best) (if better then prevp else prevp_best)"
      using adv[of s prevp] by (auto simp: J_def)
  next
    fix s prevp p_best prevp_best p better s' r
    assume "J s prevp p_best prevp_best" "p = s_ptr (hdr s prevp)" "p = freep s"
      "morecore s (nunits_of nbytes) = Some (s', r)" "r \<noteq> NULL"
    then show "J s' r NULL (if better then prevp else prevp_best)"
      using grow[of s prevp s' r] by (auto simp: J_def)
  next
    fix s prevp p_best prevp_best p s'
    assume "J s prevp p_best prevp_best" "p = s_ptr (hdr s prevp)" "p = freep s"
      "morecore s (nunits_of nbytes) = Some (s', NULL)"
    then show "Q (s', NULL)"
      using fail[of s prevp s'] by (auto simp: J_def)
  next
    fix s prevp p_best prevp_best
    assume "J s prevp p_best prevp_best"
      "s_size (hdr s (s_ptr (hdr s prevp))) = nunits_of nbytes"
    then show "Q (unlink_block s prevp (s_ptr (hdr s prevp)))"
      using unl[of s prevp] by (auto simp: J_def)
  next
    fix s prevp p_best prevp_best p better
    assume j: "J s prevp p_best prevp_best" and p: "p = s_ptr (hdr s prevp)"
      and b: "better = ((p_best = NULL \<or> s_size (hdr s p) < s_size (hdr s p_best))
                           \<and> nunits_of nbytes < s_size (hdr s p))"
      and nn: "(if better then p else p_best) \<noteq> NULL"
    show "Q (split_block s (nunits_of nbytes) (if better then prevp else prevp_best)
                     (if better then p else p_best))"
    proof (cases better)
      case True
      with j p b spl[of s prevp] show ?thesis by (auto simp: J_def)
    next
      case False
      with j nn spl[of s prevp_best] show ?thesis by (auto simp: J_def)
    qed
  qed
qed

lemma morecore_cases:
  assumes "ring (hdr s) (freep s) xs" "morecore s n = Some (s', r)"
  shows "(grow_fails s n \<and> s' = s \<and> r = NULL) \<or>
         (\<not> grow_fails s n \<and> r = freep s' \<and> r \<in> set xs \<and> brk s \<le> brk s' \<and>
          (\<exists>ys. ring (hdr s') (freep s') ys \<and> set ys \<subseteq> insert (brk s) (set xs)))"
proof (cases "sbrk s (unat ((ucast (if n < NALLOC then NALLOC else n) :: 64 word) * 16))")
  case None
  with assms show ?thesis by (auto simp: morecore_def Let_def grow_fails_def)
next
  case (Some a)
  obtain s1 cp where a: "a = (s1, cp)" by (cases a)
  with Some have s1: "hdr s1 = hdr s" "freep s1 = freep s" "cp = brk s" "brk s \<le> brk s1"
    by (auto simp: sbrk_def split: if_splits)
  let ?s2 = "s1\<lparr>hdr := set_size (hdr s1) cp (if n < NALLOC then NALLOC else n)\<rparr>"
  from assms(2) Some a have f: "free ?s2 (cp + sizeof_Header) = Some s'" and r: "r = freep s'"
    by (auto simp: morecore_def Let_def split: option.splits)
  have r2: "ring (hdr ?s2) (freep ?s2) xs"
    using assms(1) s1 by (simp add: ring_set_size)
  from f obtain t where t: "free_scan (hdr ?s2) cp (freep ?s2) = Some t" and ft: "freep s' = t"
    and b: "brk s' = brk s1"
    by (auto simp: free_def Let_def sizeof_Header_def NULL_def split: option.splits)
  from free_scan_ring[OF r2 t] have "t \<in> set xs" by simp
  moreover from free_ring[OF r2 f] obtain ys where
    "ring (hdr s') (freep s') ys" "set ys \<subseteq> insert cp (set xs)" by auto
  ultimately show ?thesis
    using Some r ft b s1 by (auto simp: grow_fails_def)
qed

lemma malloc_fails_exhausted:
  assumes r: "ring (hdr (bootstrap s)) (freep (bootstrap s)) xs" and nn: "NULL \<notin> set xs"
    and bk: "brk s \<noteq> NULL" and nz: "nbytes \<noteq> 0"
    and m: "malloc strat s nbytes = Some (s', NULL)"
  shows "grow_fails s' (nunits_of nbytes)"
proof -
  define I where "I = (\<lambda>(s :: state) prevp. (\<exists>xs. ring (hdr s) (freep s) xs \<and> NULL \<notin> set xs \<and>
      prevp \<in> set xs) \<and> brk s \<noteq> NULL)"
  define Q where "Q = (\<lambda>y :: state \<times> addr. snd y = NULL \<longrightarrow> grow_fails (fst y) (nunits_of nbytes))"
  have "Q (s', NULL)"
  proof (rule malloc_rule[OF m nz, where I = I])
    show "I (bootstrap s) (freep (bootstrap s))"
      using r nn bk ring_cursor_in[OF r] by (auto simp: I_def bootstrap_def)
  next
    fix s prevp assume "I s prevp"
    then show "I s (s_ptr (hdr s prevp))"
      using ring_next_in by (fastforce simp: I_def)
  next
    fix s prevp s' r
    assume i: "I s prevp" and mc: "morecore s (nunits_of nbytes) = Some (s', r)" and rn: "r \<noteq> NULL"
    from i obtain xs where x: "ring (hdr s) (freep s) xs" "NULL \<notin> set xs" "brk s \<noteq> NULL"
      by (auto simp: I_def)
    from morecore_cases[OF x(1) mc] rn obtain ys where
      "r = freep s'" "brk s \<le> brk s'" "ring (hdr s') (freep s') ys"
      "set ys \<subseteq> insert (brk s) (set xs)" by auto
    with x(2,3) ring_cursor_in[of "hdr s'" "freep s'" ys] show "I s' r"
      by (auto simp: I_def NULL_def)
  next
    fix s prevp s'
    assume i: "I s prevp" and mc: "morecore s (nunits_of nbytes) = Some (s', NULL)"
    from i obtain xs where x: "ring (hdr s) (freep s) xs" "NULL \<notin> set xs"
      by (auto simp: I_def)
    from morecore_cases[OF x(1) mc] x(2) show "Q (s', NULL)"
      by (auto simp: Q_def)
  next
    fix s prevp
    show "Q (unlink_block s prevp (s_ptr (hdr s prevp)))"
      using unlink_block_not_NULL by (simp add: Q_def)
  next
    fix s prevp
    show "Q (split_block s (nunits_of nbytes) prevp (s_ptr (hdr s prevp)))"
      using split_block_not_NULL by (simp add: Q_def)
  qed
  then show ?thesis by (simp add: Q_def)
qed

lemma pos_notin:
  assumes "ring h c xs" "t \<in> set xs" "is_pos h bp t"
  shows "bp \<notin> set xs"
proof -
  from assms(1,2) obtain zs where z: "ring h t zs" "set zs = set xs"
    by (rule ring_rotate)
  from ring_insert_pos[OF z(1) assms(3)] z(2) show ?thesis by simp
qed

lemma free_result:
  assumes r: "ring (hdr s) (freep s) xs" and f: "free s ap = Some s'" and nn: "ap \<noteq> NULL"
  shows "freep s' \<in> set xs \<and> ap - sizeof_Header \<notin> set xs \<and>
         is_pos (hdr s) (ap - sizeof_Header) (freep s') \<and>
         hdr s' = coalesced (hdr s) (ap - sizeof_Header) (freep s') \<and>
         brk s' = brk s \<and> brk_max s' = brk_max s \<and> base s' = base s \<and> dat s' = dat s \<and>
         (\<exists>ys. ring (hdr s') (freep s') ys \<and> set ys \<subseteq> insert (ap - sizeof_Header) (set xs))"
proof -
  from f nn obtain t where sc: "free_scan (hdr s) (ap - sizeof_Header) (freep s) = Some t"
    and s': "s' = s\<lparr>hdr := join_lower (join_upper (hdr s) (ap - sizeof_Header) t)
                 (ap - sizeof_Header) t, freep := t\<rparr>"
    by (auto simp: free_def Let_def split: option.splits)
  from free_scan_ring[OF r sc] have tin: "t \<in> set xs" and pos: "is_pos (hdr s) (ap - sizeof_Header) t"
    by auto
  have nin: "ap - sizeof_Header \<notin> set xs"
    using pos_notin[OF r tin pos] .
  have "s_ptr (hdr s t) \<in> set xs"
    using ring_next_in[OF r tin] .
  with nin tin have "ap - sizeof_Header \<noteq> t" "ap - sizeof_Header \<noteq> s_ptr (hdr s t)"
    by auto
  then have "join_lower (join_upper (hdr s) (ap - sizeof_Header) t) (ap - sizeof_Header) t
      = coalesced (hdr s) (ap - sizeof_Header) t"
    by (rule join_coalesced)
  with free_ring[OF r f] tin nin pos show ?thesis
    by (simp add: s')
qed

lemma coalesced_other: "a \<noteq> bp \<Longrightarrow> a \<noteq> p \<Longrightarrow> coalesced h bp p a = h a"
  by (simp add: coalesced_def Let_def)

lemma coalesced_lower_end:
  assumes "bp \<noteq> p"
  shows "hplus p (s_size (coalesced h bp p p)) = hplus p (s_size (h p)) \<or>
         (hplus p (s_size (h p)) = bp)"
  using assms by (auto simp: coalesced_def Let_def)

lemma morecore_frame:
  assumes r: "ring (hdr s) (freep s) xs" and u: "in_use s xs a"
    and m: "morecore s n = Some (s', p)"
  shows "hdr s' a = hdr s a \<and>
         (\<exists>ys. ring (hdr s') (freep s') ys \<and> in_use s' ys a \<and> (p \<noteq> NULL \<longrightarrow> p \<in> set ys))"
proof (cases "sbrk s (unat ((ucast (if n < NALLOC then NALLOC else n) :: 64 word) * 16))")
  case None
  with m have "s' = s" "p = NULL" by (auto simp: morecore_def Let_def)
  with r u show ?thesis by auto
next
  case (Some x)
  obtain s1 cp where x: "x = (s1, cp)" by (cases x)
  with Some have s1: "hdr s1 = hdr s" "freep s1 = freep s" "cp = brk s" "brk s \<le> brk s1"
    by (auto simp: sbrk_def split: if_splits)
  define nu where "nu = (if n < NALLOC then NALLOC else n)"
  define h2 where "h2 = set_size (hdr s) cp nu"
  let ?s2 = "s1\<lparr>hdr := h2\<rparr>"
  from m Some x have f: "free ?s2 (cp + sizeof_Header) = Some s'" and p: "p = freep s'"
    by (auto simp: morecore_def Let_def nu_def h2_def s1 split: option.splits)
  have r2: "ring (hdr ?s2) (freep ?s2) xs"
    using r s1 by (simp add: ring_set_size h2_def)
  have nn: "cp + sizeof_Header \<noteq> NULL"
    by (simp add: sizeof_Header_def NULL_def)
  from free_result[OF r2 f nn] obtain ys where
    t: "freep s' \<in> set xs" and h': "hdr s' = coalesced h2 cp (freep s')"
    and b: "brk s' = brk s1" and ys: "ring (hdr s') (freep s') ys" "set ys \<subseteq> insert cp (set xs)"
    and cn: "cp \<notin> set xs"
    by auto
  from u have a: "a \<notin> set xs" "a < cp"
    and ins: "\<forall>x\<in>set xs. \<not> (x < a \<and> a < hplus x (s_size (hdr s x)))"
    by (auto simp: in_use_def list_all_iff s1)
  have ne: "a \<noteq> cp" "a \<noteq> freep s'" "cp \<noteq> freep s'"
    using a t cn by auto
  have keep: "hdr s' a = hdr s a"
    using ne by (simp add: h' coalesced_other h2_def set_size_def)
  have "in_use s' ys a"
    unfolding in_use_def list_all_iff
  proof (intro conjI ballI)
    show "a \<notin> set ys" using ys(2) a by auto
    show "a < brk s'" using a b s1 by simp
  next
    fix x assume x: "x \<in> set ys"
    show "\<not> (x < a \<and> a < hplus x (s_size (hdr s' x)))"
    proof (cases "x = cp")
      case True
      with a show ?thesis by simp
    next
      case False
      with x ys(2) have xin: "x \<in> set xs" by auto
      show ?thesis
      proof (cases "x = freep s'")
        case True
        have h2x: "h2 x = hdr s x"
          using False by (simp add: h2_def set_size_def)
        from coalesced_lower_end[OF ne(3), of h2] True h' h2x
        have "hplus x (s_size (hdr s' x)) = hplus x (s_size (hdr s x)) \<or>
              hplus x (s_size (hdr s x)) = cp" by simp
        then show ?thesis
        proof
          assume "hplus x (s_size (hdr s' x)) = hplus x (s_size (hdr s x))"
          with ins xin show ?thesis by simp
        next
          assume "hplus x (s_size (hdr s x)) = cp"
          with ins xin a show ?thesis by auto
        qed
      next
        case nt: False
        with False have "hdr s' x = hdr s x"
          by (simp add: h' coalesced_other h2_def set_size_def)
        with ins xin show ?thesis by simp
      qed
    qed
  qed
  with keep ys(1) p ring_cursor_in[OF ys(1)] show ?thesis by auto
qed

lemma split_inside:
  assumes "n \<noteq> 0" "n < w"
  shows "p < hplus p (w - n) \<and> hplus p (w - n) < hplus p w"
proof -
  have "unat (w - n) = unat w - unat n"
    using assms by (simp add: unat_sub)
  moreover have "0 < unat n" "unat n < unat w"
    using assms by (simp_all add: unat_gt_0 word_less_nat_alt)
  ultimately show ?thesis
    by (simp add: hplus_def sizeof_Header_def)
qed

lemma malloc_frame:
  assumes r: "ring (hdr s) (freep s) xs" and fn: "freep s \<noteq> NULL" and u: "in_use s xs a"
    and n0: "nunits_of nbytes \<noteq> 0" and m: "malloc strat s nbytes = Some y"
  shows "hdr (fst y) a = hdr s a"
proof (cases "nbytes = 0")
  case True
  with m show ?thesis by (auto simp: malloc_def)
next
  case nz: False
  define I where "I = (\<lambda>(s1 :: state) prevp. (\<exists>xs. ring (hdr s1) (freep s1) xs \<and>
      prevp \<in> set xs \<and> in_use s1 xs a) \<and> hdr s1 a = hdr s a)"
  show ?thesis
  proof (rule malloc_rule[OF m nz, where I = I])
    show "I (bootstrap s) (freep (bootstrap s))"
      using r fn u ring_cursor_in[OF r] by (auto simp: I_def bootstrap_def)
  next
    fix s1 prevp assume "I s1 prevp"
    then show "I s1 (s_ptr (hdr s1 prevp))"
      using ring_next_in by (fastforce simp: I_def)
  next
    fix s1 prevp s' p
    assume i: "I s1 prevp" and mc: "morecore s1 (nunits_of nbytes) = Some (s', p)"
      and pn: "p \<noteq> NULL"
    from i obtain xs where x: "ring (hdr s1) (freep s1) xs" "in_use s1 xs a"
      and k: "hdr s1 a = hdr s a"
      by (auto simp: I_def)
    from morecore_frame[OF x mc] pn k show "I s' p"
      by (auto simp: I_def)
  next
    fix s1 prevp s'
    assume i: "I s1 prevp" and mc: "morecore s1 (nunits_of nbytes) = Some (s', NULL)"
    from i obtain xs where x: "ring (hdr s1) (freep s1) xs" "in_use s1 xs a"
      and k: "hdr s1 a = hdr s a"
      by (auto simp: I_def)
    from morecore_frame[OF x mc] k show "hdr (fst (s', NULL)) a = hdr s a"
      by simp
  next
    fix s1 prevp
    assume i: "I s1 prevp"
    then have "a \<noteq> prevp" "hdr s1 a = hdr s a"
      by (auto simp: I_def in_use_def)
    then show "hdr (fst (unlink_block s1 prevp (s_ptr (hdr s1 prevp)))) a = hdr s a"
      by (simp add: unlink_block_def set_ptr_def)
  next
    fix s1 prevp
    assume i: "I s1 prevp"
      and lt: "nunits_of nbytes < s_size (hdr s1 (s_ptr (hdr s1 prevp)))"
    define p where "p = s_ptr (hdr s1 prevp)"
    from i obtain xs where x: "ring (hdr s1) (freep s1) xs" "prevp \<in> set xs" "in_use s1 xs a"
      and k: "hdr s1 a = hdr s a"
      by (auto simp: I_def)
    have pin: "p \<in> set xs"
      using ring_next_in[OF x(1,2)] by (simp add: p_def)
    with x(3) have ap: "a \<noteq> p" and ni: "\<not> (p < a \<and> a < hplus p (s_size (hdr s1 p)))"
      by (auto simp: in_use_def list_all_iff)
    from split_inside[OF n0 lt[folded p_def], of p] ni
    have "a \<noteq> hplus p (s_size (hdr s1 p) - nunits_of nbytes)"
      by auto
    with ap k show "hdr (fst (split_block s1 (nunits_of nbytes) prevp (s_ptr (hdr s1 prevp)))) a
        = hdr s a"
      by (simp add: split_block_def Let_def set_size_def p_def)
  qed
qed


section \<open>Requests whose unit count fits\<close>

text \<open>
  For a request of at most \<open>2 ^ 36 - 32\<close> bytes line 152 computes the rounded-up quotient
  plus one, which covers the request; and every block that \<^verbatim>\<open>malloc\<close> returns records
  exactly \<open>nunits\<close> units.
\<close>

lemma nunits_of_in_range:
  assumes "unat nbytes \<le> 2 ^ 36 - 32"
  shows "unat (nunits_of nbytes) = (unat nbytes + 15) div 16 + 1"
proof -
  have a: "unat (nbytes + 15) = unat nbytes + 15"
    using assms by (subst unat_add_lem[THEN iffD1]) simp_all
  have b: "unat ((nbytes + 15) div 16) = (unat nbytes + 15) div 16"
    by (simp add: unat_div a)
  have c: "unat ((nbytes + 15) div 16 + 1) = (unat nbytes + 15) div 16 + 1"
    using assms by (subst unat_add_lem[THEN iffD1]) (simp_all add: b)
  have "(unat nbytes + 15) div 16 + 1 < 2 ^ 32"
    using assms by simp
  then have "unat (ucast ((nbytes + 15) div 16 + 1 :: 64 word) :: 32 word)
      = (unat nbytes + 15) div 16 + 1"
    by (simp add: unsigned_ucast_eq c take_bit_nat_eq_self)
  moreover have "nbytes + 16 - 1 = nbytes + 15"
    by simp
  ultimately show ?thesis
    by (simp only: nunits_of_def)
qed

lemma nunits_of_enough:
  assumes "unat nbytes \<le> 2 ^ 36 - 32"
  shows "unat nbytes \<le> sizeof_Header * (unat (nunits_of nbytes) - 1)"
  unfolding nunits_of_in_range[OF assms] sizeof_Header_def by simp

lemma malloc_recorded_units:
  assumes "malloc strat s nbytes = Some y" "snd y \<noteq> NULL"
  shows "recorded_units y = nunits_of nbytes"
proof -
  have nz: "nbytes \<noteq> 0"
    using assms by (auto simp: malloc_def)
  have "snd y \<noteq> NULL \<longrightarrow> recorded_units y = nunits_of nbytes"
    by (rule malloc_rule[OF assms(1) nz, where I = "\<lambda>_ _. True"])
       (auto simp: unlink_block_def split_block_def recorded_units_def Let_def set_ptr_def
          set_size_def sizeof_Header_def)
  with assms(2) show ?thesis by simp
qed


section \<open>The blocks in use\<close>

text \<open>
  The hypotheses under which a release is studied above hold along every use of the
  allocator that releases only blocks in use: \<open>heap_inv\<close> holds once the list is
  initialised and is kept by each call.
\<close>

lemma heap_invD:
  assumes "heap_inv s xs as"
  shows "well_formed s xs" "base s \<noteq> NULL" "s_size (hdr s (base s)) = 0" "base s < brk s"
    "distinct as"
    "\<And>x. x \<in> set xs \<Longrightarrow> x < brk s \<and> hplus x (s_size (hdr s x)) \<le> brk s"
    "\<And>a. a \<in> set as \<Longrightarrow> releasable s xs (a + sizeof_Header) \<and> s_size (hdr s a) \<noteq> 0 \<and>
            hplus a (s_size (hdr s a)) \<le> brk s"
    "\<And>a a'. a \<in> set as \<Longrightarrow> a' \<in> set as \<Longrightarrow>
            a = a' \<or> hplus a (s_size (hdr s a)) \<le> a' \<or> hplus a' (s_size (hdr s a')) \<le> a"
  using assms by (auto simp: heap_inv_def list_all_iff)

lemma heap_invI:
  assumes "well_formed s xs" "base s \<noteq> NULL" "s_size (hdr s (base s)) = 0" "base s < brk s"
    "distinct as"
    "\<And>x. x \<in> set xs \<Longrightarrow> x < brk s \<and> hplus x (s_size (hdr s x)) \<le> brk s"
    "\<And>a. a \<in> set as \<Longrightarrow> releasable s xs (a + sizeof_Header) \<and> s_size (hdr s a) \<noteq> 0 \<and>
            hplus a (s_size (hdr s a)) \<le> brk s"
    "\<And>a a'. a \<in> set as \<Longrightarrow> a' \<in> set as \<Longrightarrow> a \<noteq> a' \<Longrightarrow>
            hplus a (s_size (hdr s a)) \<le> a' \<or> hplus a' (s_size (hdr s a')) \<le> a"
  shows "heap_inv s xs as"
  unfolding heap_inv_def list_all_iff using assms by blast

lemma releasableD:
  assumes "releasable s xs (a + sizeof_Header)"
  shows "a \<notin> set xs" "base s < a"
    "\<And>x. x \<in> set xs \<Longrightarrow>
       hplus x (s_size (hdr s x)) \<le> a \<or> hplus a (s_size (hdr s a)) \<le> x"
  using assms by (auto simp: releasable_def list_all_iff)

lemma releasableI:
  assumes "a \<notin> set xs" "base s < a"
    "\<And>x. x \<in> set xs \<Longrightarrow>
       hplus x (s_size (hdr s x)) \<le> a \<or> hplus a (s_size (hdr s a)) \<le> x"
  shows "releasable s xs (a + sizeof_Header)"
  using assms by (simp add: releasable_def list_all_iff sizeof_Header_def NULL_def)

lemma well_formedD:
  assumes "well_formed s xs"
  shows "ring (hdr s) (freep s) xs" "base s \<in> set xs" "\<And>x. x \<in> set xs \<Longrightarrow> base s \<le> x"
    "\<And>x. x \<in> set xs \<Longrightarrow> x < s_ptr (hdr s x) \<Longrightarrow>
       hplus x (s_size (hdr s x)) < s_ptr (hdr s x)"
  using assms by (auto simp: well_formed_def separated_def list_all_iff)

lemma well_formedI:
  assumes "ring (hdr s) (freep s) xs" "base s \<in> set xs" "\<And>x. x \<in> set xs \<Longrightarrow> base s \<le> x"
    "\<And>x. x \<in> set xs \<Longrightarrow> x < s_ptr (hdr s x) \<Longrightarrow>
       hplus x (s_size (hdr s x)) < s_ptr (hdr s x)"
  shows "well_formed s xs"
  using assms by (simp add: well_formed_def separated_def list_all_iff)

lemma free_blocks_apart:
  assumes wf: "well_formed s xs" and x: "x \<in> set xs" and y: "y \<in> set xs" and lt: "x < y"
  shows "hplus x (s_size (hdr s x)) < y"
proof -
  from ring_next_least[OF well_formedD(1)[OF wf] x y lt]
  have "x < s_ptr (hdr s x)" "s_ptr (hdr s x) \<le> y" by simp_all
  with well_formedD(4)[OF wf x] show ?thesis by simp
qed

lemma coalesced_freed_end:
  assumes "bp \<noteq> p"
  shows "hplus bp (s_size (coalesced h bp p bp)) = hplus bp (s_size (h bp)) \<or>
         (hplus bp (s_size (h bp)) = s_ptr (h p) \<and>
          hplus bp (s_size (coalesced h bp p bp)) \<le> hplus (s_ptr (h p)) (s_size (h (s_ptr (h p)))))"
proof (cases "hplus bp (s_size (h bp)) = s_ptr (h p)")
  case True
  have "hplus bp (s_size (h bp) + s_size (h (s_ptr (h p))))
      \<le> hplus (hplus bp (s_size (h bp))) (s_size (h (s_ptr (h p))))"
    by (rule hplus_add_le)
  with True assms show ?thesis by (simp add: coalesced_def Let_def)
next
  case False
  with assms show ?thesis by (simp add: coalesced_def Let_def)
qed

lemma coalesced_lower_bound:
  assumes "bp \<noteq> p"
  shows "hplus p (s_size (coalesced h bp p p)) = hplus p (s_size (h p)) \<or>
         (hplus p (s_size (h p)) = bp \<and>
          hplus p (s_size (coalesced h bp p p)) \<le> hplus bp (s_size (coalesced h bp p bp)))"
proof (cases "hplus p (s_size (h p)) = bp")
  case True
  define B where "B = coalesced h bp p bp"
  have "s_size (coalesced h bp p p) = s_size (h p) + s_size B"
    using True assms by (auto simp: coalesced_def Let_def B_def)
  moreover have "hplus p (s_size (h p) + s_size B) \<le> hplus (hplus p (s_size (h p))) (s_size B)"
    by (rule hplus_add_le)
  ultimately show ?thesis using True by (simp add: B_def)
next
  case False
  with assms show ?thesis by (simp add: coalesced_def Let_def)
qed

lemma coalesced_base_size:
  assumes "bp \<noteq> p" "p < bp" "s_size (h p) = 0"
  shows "s_size (coalesced h bp p p) = 0"
  using assms by (auto simp: coalesced_def Let_def hplus_def)

lemma hplus_gt: "n \<noteq> 0 \<Longrightarrow> p < hplus p n"
  by (simp add: hplus_def sizeof_Header_def unat_gt_0)

text \<open>
  The release of a block in use returns and keeps the invariant; the block leaves the
  blocks in use.
\<close>

lemma free_heap_inv:
  assumes inv: "heap_inv s xs as" and a: "a \<in> set as"
  shows "\<exists>s' ys. free s (a + sizeof_Header) = Some s' \<and> heap_inv s' ys (removeAll a as)"
proof -
  define h where "h = hdr s"
  from inv have wf: "well_formed s xs" and bn: "base s \<noteq> NULL" and b0: "s_size (h (base s)) = 0"
    and bb: "base s < brk s" and di: "distinct as"
    and fr: "\<forall>x\<in>set xs. x < brk s \<and> hplus x (s_size (h x)) \<le> brk s"
    and al: "\<forall>a\<in>set as. releasable s xs (a + sizeof_Header) \<and> s_size (h a) \<noteq> 0 \<and>
                hplus a (s_size (h a)) \<le> brk s"
    and pw: "\<forall>a\<in>set as. \<forall>a'\<in>set as. a = a' \<or> hplus a (s_size (h a)) \<le> a' \<or>
                hplus a' (s_size (h a')) \<le> a"
    by (auto simp: heap_inv_def list_all_iff h_def)
  from al a have rel: "releasable s xs (a + sizeof_Header)" by simp
  have aa: "a + sizeof_Header - sizeof_Header = a" by simp
  from wf rel have "ring (hdr s) (freep s) xs" "a \<notin> set xs"
    by (auto simp: well_formed_def releasable_def)
  from free_scan_terminates[OF this] obtain s' where f: "free s (a + sizeof_Header) = Some s'"
    by (auto simp: free_def Let_def sizeof_Header_def NULL_def)
  from free_well_formed[OF wf rel f] obtain ys where near: "nearest_below xs a (freep s')"
    and h': "hdr s' = coalesced h a (freep s')"
    and wf': "well_formed s' ys" and sub: "set ys \<subseteq> insert a (set xs)"
    unfolding aa h_def by blast
  define t where "t = freep s'"
  define q where "q = s_ptr (h t)"
  from wf have r: "ring h (freep s) xs" by (simp add: well_formed_def h_def)
  have nn: "a + sizeof_Header \<noteq> NULL" by (simp add: sizeof_Header_def NULL_def)
  from free_result[OF r[unfolded h_def] f nn] have st: "brk s' = brk s" "base s' = base s"
    by (simp_all add: aa)
  from near have tin: "t \<in> set xs" and ta: "t < a" by (auto simp: nearest_below_def t_def)
  have qin: "q \<in> set xs" using ring_next_in[OF r tin] by (simp add: q_def)
  have ne: "a \<noteq> t" using ta by simp
  from rel have ax: "a \<notin> set xs" and ba: "base s < a"
    and dis: "\<forall>x\<in>set xs. hplus x (s_size (h x)) \<le> a \<or> hplus a (s_size (h a)) \<le> x"
    by (auto simp: releasable_def list_all_iff h_def)
  define h2 where "h2 = coalesced h a t"
  have hO: "h2 x = h x" if "x \<noteq> a" "x \<noteq> t" for x
    using that by (simp add: h2_def coalesced_other)
  have hs: "hdr s' = h2" by (simp add: h' t_def h2_def)
  \<comment> \<open>the extent of the freed block after the release\<close>
  have endq: "hplus q (s_size (h q)) \<le> brk s" using fr qin by simp
  have enda: "hplus a (s_size (h a)) \<le> brk s" using al a by simp
  have ea: "hplus a (s_size (h2 a)) \<le> brk s"
    using coalesced_freed_end[OF ne, of h] endq enda by (auto simp: h2_def q_def)
  have et: "hplus t (s_size (h2 t)) \<le> brk s"
    using coalesced_lower_bound[OF ne, of h] ea fr tin by (auto simp: h2_def)
  have alt: "a < brk s"
    using hplus_gt[of "s_size (h a)" a] al a by force
  \<comment> \<open>another block in use stays clear of the freed block and of its lower neighbour\<close>
  have clear_a: "hplus a (s_size (h2 a)) \<le> c \<or> hplus c (s_size (h c)) \<le> a"
    if c: "c \<in> set as" "c \<noteq> a" for c
  proof (rule disjCI)
    assume n: "\<not> hplus c (s_size (h c)) \<le> a"
    with pw a c have e: "hplus a (s_size (h a)) \<le> c" by force
    from coalesced_freed_end[OF ne, of h]
    show "hplus a (s_size (h2 a)) \<le> c"
    proof
      assume "hplus a (s_size (coalesced h a t a)) = hplus a (s_size (h a))"
      with e show ?thesis by (simp add: h2_def)
    next
      assume u: "hplus a (s_size (h a)) = s_ptr (h t) \<and>
          hplus a (s_size (coalesced h a t a)) \<le> hplus (s_ptr (h t)) (s_size (h (s_ptr (h t))))"
      from al c have "releasable s xs (c + sizeof_Header)" by simp
      then have "c \<notin> set xs" "hplus q (s_size (h q)) \<le> c \<or> hplus c (s_size (h c)) \<le> q"
        using qin by (auto simp: releasable_def list_all_iff h_def)
      moreover have "q \<le> c" using u e by (simp add: q_def)
      moreover have "c < hplus c (s_size (h c))"
        using hplus_gt[of "s_size (h c)" c] al c by simp
      ultimately have "hplus q (s_size (h q)) \<le> c" using qin by force
      with u show ?thesis by (simp add: h2_def q_def)
    qed
  qed
  have clear_t: "hplus t (s_size (h2 t)) \<le> c \<or> hplus c (s_size (h c)) \<le> t"
    if c: "c \<in> set as" "c \<noteq> a" for c
  proof (rule disjCI)
    assume n: "\<not> hplus c (s_size (h c)) \<le> t"
    from al c have "releasable s xs (c + sizeof_Header)" by simp
    with tin n have e: "hplus t (s_size (h t)) \<le> c"
      by (auto simp: releasable_def list_all_iff h_def)
    from coalesced_lower_bound[OF ne, of h]
    show "hplus t (s_size (h2 t)) \<le> c"
    proof
      assume "hplus t (s_size (coalesced h a t t)) = hplus t (s_size (h t))"
      with e show ?thesis by (simp add: h2_def)
    next
      assume l: "hplus t (s_size (h t)) = a \<and>
          hplus t (s_size (coalesced h a t t)) \<le> hplus a (s_size (coalesced h a t a))"
      with e c have "a < c" by simp
      then have "\<not> hplus c (s_size (h c)) \<le> a"
        using hplus_ge[of c "s_size (h c)"] by simp
      with clear_a[OF c] l show ?thesis by (simp add: h2_def)
    qed
  qed
  have i1: "s_size (hdr s' (base s')) = 0"
  proof (cases "base s = t")
    case True
    with coalesced_base_size[OF ne ta, of h] b0 show ?thesis
      by (simp add: hs st h2_def)
  next
    case False
    with ba b0 hO[of "base s"] show ?thesis
      by (simp add: hs st)
  qed
  have i2: "x < brk s' \<and> hplus x (s_size (hdr s' x)) \<le> brk s'" if x: "x \<in> set ys" for x
  proof (cases "x = a \<or> x = t")
    case True
    with ea et alt fr tin show ?thesis
      by (auto simp: hs st)
  next
    case False
    with x sub have "x \<in> set xs" by auto
    with fr False hO[of x] show ?thesis
      by (simp add: hs st)
  qed
  have i3: "releasable s' ys (c + sizeof_Header) \<and> s_size (hdr s' c) \<noteq> 0 \<and>
        hplus c (s_size (hdr s' c)) \<le> brk s'" if "c \<in> set (removeAll a as)" for c
  proof -
    from that have c: "c \<in> set as" "c \<noteq> a" by auto
    from al c have rc: "releasable s xs (c + sizeof_Header)" and cs: "s_size (h c) \<noteq> 0"
      and ce: "hplus c (s_size (h c)) \<le> brk s" by auto
    from rc have cx: "c \<notin> set xs" and bc: "base s < c"
      and cd: "\<forall>x\<in>set xs. hplus x (s_size (h x)) \<le> c \<or> hplus c (s_size (h c)) \<le> x"
      by (auto simp: releasable_def list_all_iff h_def)
    have ct: "c \<noteq> t" using cx tin by auto
    have hc: "h2 c = h c"
      using hO[OF c(2) ct] .
    have "hplus x (s_size (h2 x)) \<le> c \<or> hplus c (s_size (h2 c)) \<le> x"
      if x: "x \<in> set ys" for x
    proof (cases "x = a \<or> x = t")
      case True
      with clear_a[OF c] clear_t[OF c] show ?thesis
        by (auto simp: hc)
    next
      case False
      with x sub have "x \<in> set xs" by auto
      with cd False hO[of x] show ?thesis
        by (simp add: hc)
    qed
    moreover have "c \<notin> set ys" using sub cx c(2) by auto
    ultimately have "releasable s' ys (c + sizeof_Header)"
      using bc st by (simp add: releasable_def list_all_iff sizeof_Header_def NULL_def hs)
    with cs ce show ?thesis
      by (simp add: hc hs st)
  qed
  have i4: "c = c' \<or> hplus c (s_size (hdr s' c)) \<le> c' \<or> hplus c' (s_size (hdr s' c')) \<le> c"
    if "c \<in> set (removeAll a as)" "c' \<in> set (removeAll a as)" for c c'
  proof -
    from that have c: "c \<in> set as" "c \<noteq> a" "c' \<in> set as" "c' \<noteq> a" by auto
    from al c have "c \<notin> set xs" "c' \<notin> set xs"
      by (auto simp: releasable_def)
    with tin have "c \<noteq> t" "c' \<noteq> t" by auto
    with c hO have "hdr s' c = h c" "hdr s' c' = h c'"
      by (simp_all add: hs)
    with pw c show ?thesis by simp
  qed
  have inv': "heap_inv s' ys (removeAll a as)"
    unfolding heap_inv_def list_all_iff
    using wf' bn bb st i1 i2 i3 i4 di by (auto simp: distinct_removeAll)
  with f show ?thesis by blast
qed

lemma set_ptr_size: "s_size (set_ptr h a v x) = s_size (h x)"
  by (simp add: set_ptr_def)

lemma set_ptr_other: "x \<noteq> a \<Longrightarrow> set_ptr h a v x = h x"
  by (simp add: set_ptr_def)

lemma unlink_ring_set:
  assumes r: "ring h c xs" and pv: "prevp \<in> set xs"
  shows "\<exists>ys. ring (set_ptr h prevp (s_ptr (h (s_ptr (h prevp))))) prevp ys \<and>
              (set ys = set xs - {s_ptr (h prevp)} \<or> set xs = {s_ptr (h prevp)})"
proof -
  let ?h' = "set_ptr h prevp (s_ptr (h (s_ptr (h prevp))))"
  from r pv obtain zs where z: "ring h prevp zs" "set zs = set xs"
    by (rule ring_rotate)
  then obtain p rest where zs: "zs = p # rest" and p: "p = s_ptr (h prevp)"
    and pa: "path h p rest" and l: "last (p # rest) = prevp" and cz: "cyc_sorted zs"
    by (cases zs) (auto simp: ring_def)
  have d: "distinct (p # rest)"
    using cyc_sorted_distinct[OF cz] zs by simp
  show ?thesis
  proof (cases rest)
    case Nil
    with l p have "s_ptr (h prevp) = prevp" by simp
    then have "ring ?h' prevp zs = ring h prevp zs"
      by (intro ring_ptr_cong) (simp add: set_ptr_def)
    with z zs Nil p show ?thesis by auto
  next
    case (Cons r' rest')
    with pa have pn: "s_ptr (h p) = r'" and p': "path h r' rest'" by auto
    have d': "distinct (r' # rest')" and l': "last (r' # rest') = prevp"
      using d l by (auto simp: Cons)
    have "prevp \<notin> set (butlast (r' # rest'))"
      using last_notin_butlast[OF d'] l' by simp
    then have "path ?h' r' rest' = path h r' rest'"
      by (cases "rest' = []") (auto intro!: path_frame simp: set_ptr_def)
    moreover have "s_ptr (?h' prevp) = r'"
      using pn p by (simp add: set_ptr_def)
    moreover have "cyc_sorted rest"
      using cz unfolding zs by (rule cyc_sorted_tl) (simp add: Cons)
    ultimately have "ring ?h' prevp rest"
      using p' l' by (simp add: ring_def Cons)
    moreover have "set rest = set xs - {s_ptr (h prevp)}"
      using z(2) zs d p by auto
    ultimately show ?thesis by blast
  qed
qed

text \<open>
  Lines 162 to 163 and 182 to 184: a free block unlinked whole becomes a block in use.
\<close>

lemma unlink_heap_inv:
  assumes inv: "heap_inv s xs as" and pv: "prevp \<in> set xs" and p: "p = s_ptr (hdr s prevp)"
    and sz: "s_size (hdr s p) \<noteq> 0"
  shows "\<exists>ys. heap_inv (fst (unlink_block s prevp p)) ys (p # as)"
proof -
  define s' where "s' = fst (unlink_block s prevp p)"
  have s': "hdr s' = set_ptr (hdr s) prevp (s_ptr (hdr s p))" "freep s' = prevp"
    "base s' = base s" "brk s' = brk s"
    by (simp_all add: s'_def unlink_block_def)
  have sz': "s_size (hdr s' x) = s_size (hdr s x)" for x
    by (simp add: s' set_ptr_size)
  note i = heap_invD[OF inv]
  note w = well_formedD[OF i(1)]
  have pin: "p \<in> set xs"
    using ring_next_in[OF w(1) pv] p by simp
  have pb: "p \<noteq> base s" using sz i(3) by auto
  with w(2) have "set xs \<noteq> {p}" by auto
  with unlink_ring_set[OF w(1) pv] obtain ys where
    ys: "ring (hdr s') (freep s') ys" "set ys = set xs - {p}"
    by (auto simp: s' p)
  have apart: "hplus x (s_size (hdr s x)) \<le> p \<or> hplus p (s_size (hdr s p)) \<le> x"
    if "x \<in> set ys" for x
  proof -
    from that ys(2) have x: "x \<in> set xs" "x \<noteq> p" by auto
    then consider "x < p" | "p < x" by force
    then show ?thesis
    proof cases
      case 1
      from free_blocks_apart[OF i(1) x(1) pin 1] show ?thesis by simp
    next
      case 2
      from free_blocks_apart[OF i(1) pin x(1) 2] show ?thesis by simp
    qed
  qed
  have wf': "well_formed s' ys"
  proof (rule well_formedI)
    show "ring (hdr s') (freep s') ys" by (rule ys(1))
    show "base s' \<in> set ys" using w(2) pb ys(2) by (simp add: s')
    show "base s' \<le> x" if "x \<in> set ys" for x
      using that w(3) ys(2) by (simp add: s')
    show "hplus x (s_size (hdr s' x)) < s_ptr (hdr s' x)"
      if x: "x \<in> set ys" and lt: "x < s_ptr (hdr s' x)" for x
    proof (cases "x = prevp")
      case True
      have "s_ptr (hdr s p) \<in> set xs" by (rule ring_next_in[OF w(1) pin])
      moreover have "s_ptr (hdr s' x) = s_ptr (hdr s p)"
        using True by (simp add: s' set_ptr_def)
      ultimately show ?thesis
        using free_blocks_apart[OF i(1) pv _ lt[unfolded True]] True by (simp add: sz')
    next
      case False
      then have "hdr s' x = hdr s x" by (simp add: s' set_ptr_other)
      with w(4)[of x] x lt ys(2) show ?thesis by simp
    qed
  qed
  have "heap_inv s' ys (p # as)"
  proof (rule heap_invI)
    show "well_formed s' ys" by (rule wf')
    show "base s' \<noteq> NULL" "s_size (hdr s' (base s')) = 0" "base s' < brk s'"
      using i(2,3,4) by (simp_all add: sz' s'(3,4))
    show "distinct (p # as)"
      using i(5) i(7) releasableD(1) pin by auto
    show "x < brk s' \<and> hplus x (s_size (hdr s' x)) \<le> brk s'" if "x \<in> set ys" for x
      using that i(6)[of x] ys(2) by (simp add: sz' s'(3,4))
    show "releasable s' ys (a + sizeof_Header) \<and> s_size (hdr s' a) \<noteq> 0 \<and>
          hplus a (s_size (hdr s' a)) \<le> brk s'" if a: "a \<in> set (p # as)" for a
    proof (cases "a = p")
      case True
      have "base s' < p" using w(3)[OF pin] pb by (simp add: s')
      moreover have "p \<notin> set ys" using ys(2) by simp
      ultimately have "releasable s' ys (p + sizeof_Header)"
        using apart by (intro releasableI) (simp_all add: sz')
      with True sz i(6)[OF pin] show ?thesis by (simp add: sz' s'(3,4))
    next
      case False
      with a have a': "a \<in> set as" by simp
      note ra = releasableD[OF conjunct1[OF i(7)[OF a']]]
      have "releasable s' ys (a + sizeof_Header)"
        using ra ys(2) by (intro releasableI) (simp_all add: sz' s'(3,4))
      with i(7)[OF a'] show ?thesis by (simp add: sz' s'(3,4))
    qed
    show "hplus a (s_size (hdr s' a)) \<le> a' \<or> hplus a' (s_size (hdr s' a')) \<le> a"
      if "a \<in> set (p # as)" "a' \<in> set (p # as)" "a \<noteq> a'" for a a'
    proof -
      have k: "hplus p (s_size (hdr s p)) \<le> c \<or> hplus c (s_size (hdr s c)) \<le> p"
        if "c \<in> set as" for c
        using releasableD(3)[OF conjunct1[OF i(7)[OF that]] pin] by auto
      from that i(8)[of a a'] k[of a] k[of a'] show ?thesis
        by (auto simp: sz')
    qed
  qed
  then show ?thesis by (auto simp: s'_def)
qed

lemma split_end:
  assumes "n < w"
  shows "hplus (hplus p (w - n)) n = hplus p w"
proof -
  have "unat (w - n) = unat w - unat n"
    using assms by (simp add: unat_sub)
  moreover have "unat n < unat w"
    using assms by (simp add: word_less_nat_alt)
  ultimately show ?thesis
    by (simp add: hplus_def sizeof_Header_def)
qed

text \<open>
  Lines 165 to 167 and 204 to 206: the block carved from the upper end of a free block
  becomes a block in use, and the remainder stays free.
\<close>

lemma split_heap_inv:
  assumes inv: "heap_inv s xs as" and pv: "prevp \<in> set xs" and pin: "p \<in> set xs"
    and n0: "n \<noteq> 0" and lt: "n < s_size (hdr s p)"
  shows "\<exists>ys. heap_inv (fst (split_block s n prevp p)) ys
              ((snd (split_block s n prevp p) - sizeof_Header) # as)"
proof -
  define s' where "s' = fst (split_block s n prevp p)"
  define w where "w = s_size (hdr s p)"
  define p' where "p' = hplus p (w - n)"
  have s': "hdr s' = set_size (set_size (hdr s) p (w - n)) p' n" "freep s' = prevp"
    "base s' = base s" "brk s' = brk s"
    and ret: "snd (split_block s n prevp p) - sizeof_Header = p'"
    by (simp_all add: s'_def split_block_def Let_def set_size_def w_def p'_def)
  note i = heap_invD[OF inv]
  note wf = well_formedD[OF i(1)]
  from split_inside[OF n0 lt[folded w_def], of p]
  have ins: "p < p'" "p' < hplus p w" by (simp_all add: p'_def)
  have e: "hplus p' n = hplus p w"
    unfolding p'_def using lt[folded w_def] by (rule split_end)
  have ptr': "s_ptr (hdr s' x) = s_ptr (hdr s x)" for x
    by (simp add: s' set_size_def)
  have sp': "s_size (hdr s' p') = n"
    by (simp add: s' set_size_def)
  have sp: "s_size (hdr s' p) = w - n"
    using ins(1) by (simp add: s' set_size_def)
  have so: "s_size (hdr s' x) = s_size (hdr s x)" if "x \<noteq> p" "x \<noteq> p'" for x
    using that by (simp add: s' set_size_def)
  have le: "hplus p (w - n) < hplus p w"
    using ins by (simp add: p'_def)
  have pb: "p \<noteq> base s" using lt i(3) by auto
  have bp: "base s < p" using wf(3)[OF pin] pb by simp
  have p'x: "p' \<notin> set xs"
  proof
    assume x: "p' \<in> set xs"
    from free_blocks_apart[OF i(1) pin x ins(1)] ins(2) show False
      by (simp add: w_def)
  qed
  from split_block_ring[OF wf(1) pv, of n p] obtain ys where
    ys: "ring (hdr s') (freep s') ys" "set ys = set xs"
    by (auto simp: s'_def)
  have other: "hplus x (s_size (hdr s x)) \<le> p \<or> hplus p w \<le> x"
    if "x \<in> set xs" "x \<noteq> p" for x
  proof -
    from that consider "x < p" | "p < x" by force
    then show ?thesis
    proof cases
      case 1
      from free_blocks_apart[OF i(1) that(1) pin 1] show ?thesis by simp
    next
      case 2
      from free_blocks_apart[OF i(1) pin that(1) 2] show ?thesis by (simp add: w_def)
    qed
  qed
  have inuse: "a \<noteq> p \<and> a \<noteq> p' \<and> (hplus p w \<le> a \<or> hplus a (s_size (hdr s a)) \<le> p)"
    if a: "a \<in> set as" for a
  proof -
    note ra = releasableD[OF conjunct1[OF i(7)[OF a]]]
    from i(7)[OF a] have "a < hplus a (s_size (hdr s a))"
      by (simp add: hplus_gt)
    with ra(1) ra(3)[OF pin] pin ins show ?thesis
      by (auto simp: w_def)
  qed
  have wf': "well_formed s' ys"
  proof (rule well_formedI)
    show "ring (hdr s') (freep s') ys" by (rule ys(1))
    show "base s' \<in> set ys" using wf(2) ys(2) by (simp add: s'(3))
    show "base s' \<le> x" if "x \<in> set ys" for x
      using that wf(3) ys(2) by (simp add: s'(3))
    show "hplus x (s_size (hdr s' x)) < s_ptr (hdr s' x)"
      if x: "x \<in> set ys" and l: "x < s_ptr (hdr s' x)" for x
    proof (cases "x = p")
      case True
      with wf(4)[OF pin] l le show ?thesis
        by (simp add: ptr' sp w_def)
    next
      case False
      with x p'x ys(2) have "s_size (hdr s' x) = s_size (hdr s x)"
        by (intro so) auto
      with wf(4)[of x] x l ys(2) show ?thesis by (simp add: ptr')
    qed
  qed
  have "heap_inv s' ys (p' # as)"
  proof (rule heap_invI)
    show "well_formed s' ys" by (rule wf')
    show "base s' \<noteq> NULL" "base s' < brk s'"
      using i(2,4) by (simp_all add: s'(3,4))
    show "s_size (hdr s' (base s')) = 0"
      using so[of "base s"] pb bp ins i(3) by (simp add: s'(3))
    show "distinct (p' # as)"
      using i(5) inuse by auto
    show "x < brk s' \<and> hplus x (s_size (hdr s' x)) \<le> brk s'" if "x \<in> set ys" for x
    proof (cases "x = p")
      case True
      with i(6)[OF pin] le show ?thesis by (simp add: sp s'(4) w_def)
    next
      case False
      with that p'x ys(2) have "s_size (hdr s' x) = s_size (hdr s x)"
        by (intro so) auto
      with i(6)[of x] that ys(2) show ?thesis by (simp add: s'(4))
    qed
    show "releasable s' ys (a + sizeof_Header) \<and> s_size (hdr s' a) \<noteq> 0 \<and>
          hplus a (s_size (hdr s' a)) \<le> brk s'" if a: "a \<in> set (p' # as)" for a
    proof (cases "a = p'")
      case True
      have "hplus x (s_size (hdr s' x)) \<le> p' \<or> hplus p' (s_size (hdr s' p')) \<le> x"
        if x: "x \<in> set ys" for x
      proof (cases "x = p")
        case True
        then show ?thesis by (simp add: sp p'_def)
      next
        case False
        with x p'x ys(2) have "s_size (hdr s' x) = s_size (hdr s x)"
          by (intro so) auto
        with other[of x] x ys(2) False ins show ?thesis
          by (auto simp: sp' e)
      qed
      moreover have "base s' < p'" using bp ins by (simp add: s'(3))
      moreover have "p' \<notin> set ys" using p'x ys(2) by simp
      ultimately have "releasable s' ys (p' + sizeof_Header)"
        by (intro releasableI)
      with True n0 i(6)[OF pin] show ?thesis
        by (simp add: sp' e s'(4) w_def)
    next
      case False
      with a have a': "a \<in> set as" by simp
      note ra = releasableD[OF conjunct1[OF i(7)[OF a']]]
      have sa: "s_size (hdr s' a) = s_size (hdr s a)"
        using inuse[OF a'] by (intro so) auto
      have "hplus x (s_size (hdr s' x)) \<le> a \<or> hplus a (s_size (hdr s' a)) \<le> x"
        if x: "x \<in> set ys" for x
      proof (cases "x = p")
        case True
        with inuse[OF a'] le show ?thesis by (auto simp: sp sa)
      next
        case False
        with x p'x ys(2) have "s_size (hdr s' x) = s_size (hdr s x)"
          by (intro so) auto
        with ra(3)[of x] x ys(2) show ?thesis by (simp add: sa)
      qed
      with ra(1,2) ys(2) have "releasable s' ys (a + sizeof_Header)"
        by (intro releasableI) (simp_all add: s'(3))
      with i(7)[OF a'] show ?thesis by (simp add: sa s'(4))
    qed
    show "hplus a (s_size (hdr s' a)) \<le> a' \<or> hplus a' (s_size (hdr s' a')) \<le> a"
      if "a \<in> set (p' # as)" "a' \<in> set (p' # as)" "a \<noteq> a'" for a a'
    proof -
      have k: "s_size (hdr s' c) = s_size (hdr s c) \<and>
          (hplus p' (s_size (hdr s' p')) \<le> c \<or> hplus c (s_size (hdr s c)) \<le> p')"
        if c: "c \<in> set as" for c
        using inuse[OF c] so[of c] ins by (auto simp: sp' e)
      from that i(8)[of a a'] k[of a] k[of a'] show ?thesis
        by auto
    qed
  qed
  then show ?thesis by (auto simp: s'_def ret)
qed

lemma unat_units: "unat ((ucast (nu :: 32 word) :: 64 word) * 16) = 16 * unat nu"
proof -
  have "unat nu < 2 ^ LENGTH(32)"
    by (rule unsigned_less)
  then have lt: "unat nu < 4294967296"
    by simp
  then have b: "unat (ucast nu :: 64 word) = unat nu"
    by (simp add: unsigned_ucast_eq take_bit_nat_eq_self)
  have "unat (ucast nu :: 64 word) * unat (16 :: 64 word) < 2 ^ LENGTH(64)"
    unfolding b using lt by simp
  then have "unat ((ucast nu :: 64 word) * 16) = unat (ucast nu :: 64 word) * unat (16 :: 64 word)"
    by (simp only: unat_mult_lem)
  then show ?thesis by (simp add: b)
qed

text \<open>
  Lines 95 to 126: the units obtained from \<^verbatim>\<open>sbrk\<close> form a block in use until
  \<^verbatim>\<open>morecore\<close> releases it onto the free list.
\<close>

lemma morecore_heap_inv:
  assumes inv: "heap_inv s xs as" and m: "morecore s n = Some (s', r)"
  shows "\<exists>ys. heap_inv s' ys as \<and> (r \<noteq> NULL \<longrightarrow> r \<in> set ys)"
proof (cases "sbrk s (unat ((ucast (if n < NALLOC then NALLOC else n) :: 64 word) * 16))")
  case None
  with m have "s' = s" "r = NULL" by (auto simp: morecore_def Let_def)
  with inv show ?thesis by auto
next
  case (Some x)
  define nu where "nu = (if n < NALLOC then NALLOC else n)"
  define cp where "cp = brk s"
  define s2 where "s2 = s\<lparr>brk := brk s + 16 * unat nu, hdr := set_size (hdr s) cp nu\<rparr>"
  from Some have x: "x = (s\<lparr>brk := brk s + 16 * unat nu\<rparr>, cp)"
    by (auto simp: sbrk_def unat_units nu_def cp_def split: if_splits)
  from m Some have f: "free s2 (cp + sizeof_Header) = Some s'" and r: "r = freep s'"
    by (auto simp: morecore_def Let_def x nu_def[symmetric] s2_def split: option.splits)
  have s2: "hdr s2 = set_size (hdr s) cp nu" "freep s2 = freep s" "base s2 = base s"
    "brk s2 = cp + 16 * unat nu"
    by (simp_all add: s2_def cp_def)
  have nu0: "nu \<noteq> 0"
    by (auto simp: nu_def NALLOC_def)
  note i = heap_invD[OF inv]
  note wf = well_formedD[OF i(1)]
  have cx: "cp \<notin> set xs" using i(6)[of cp] by (auto simp: cp_def)
  have ho: "hdr s2 x = hdr s x" if "x \<noteq> cp" for x
    using that by (simp add: s2 set_size_def)
  have hx: "hdr s2 x = hdr s x" if "x \<in> set xs" for x
    using that cx by (intro ho) auto
  have ca: "a < cp \<and> hdr s2 a = hdr s a" if a: "a \<in> set as" for a
  proof -
    from i(7)[OF a] have "a < hplus a (s_size (hdr s a))" "hplus a (s_size (hdr s a)) \<le> cp"
      by (simp_all add: hplus_gt cp_def)
    then show ?thesis using ho[of a] by simp
  qed
  have scp: "s_size (hdr s2 cp) = nu"
    by (simp add: s2 set_size_def)
  have ecp: "hplus cp nu = brk s2"
    by (simp add: s2 hplus_def sizeof_Header_def)
  have "well_formed s2 xs"
    using wf by (intro well_formedI) (simp_all add: s2(2,3) hx, simp add: s2(1) ring_set_size)
  have inv2: "heap_inv s2 xs (cp # as)"
  proof (rule heap_invI)
    show "well_formed s2 xs" by fact
    show "base s2 \<noteq> NULL" "base s2 < brk s2"
      using i(2,4) by (simp_all add: s2 cp_def)
    show "s_size (hdr s2 (base s2)) = 0"
      using i(3,4) ho[of "base s"] by (simp add: s2(3) cp_def)
    show "distinct (cp # as)"
      using i(5) ca by auto
    show "x < brk s2 \<and> hplus x (s_size (hdr s2 x)) \<le> brk s2" if "x \<in> set xs" for x
      using i(6)[OF that] hx[OF that] by (simp add: s2(4) cp_def)
    show "releasable s2 xs (a + sizeof_Header) \<and> s_size (hdr s2 a) \<noteq> 0 \<and>
          hplus a (s_size (hdr s2 a)) \<le> brk s2" if a: "a \<in> set (cp # as)" for a
    proof (cases "a = cp")
      case True
      have "releasable s2 xs (cp + sizeof_Header)"
        using cx i(4) i(6) by (intro releasableI) (auto simp: s2(3) hx cp_def)
      with True nu0 show ?thesis by (simp add: scp ecp)
    next
      case False
      with a have a': "a \<in> set as" by simp
      note ra = releasableD[OF conjunct1[OF i(7)[OF a']]]
      have "releasable s2 xs (a + sizeof_Header)"
        using ra ca[OF a'] by (intro releasableI) (simp_all add: s2(3) hx)
      with i(7)[OF a'] ca[OF a'] show ?thesis by (simp add: s2(4) cp_def)
    qed
    show "hplus a (s_size (hdr s2 a)) \<le> a' \<or> hplus a' (s_size (hdr s2 a')) \<le> a"
      if "a \<in> set (cp # as)" "a' \<in> set (cp # as)" "a \<noteq> a'" for a a'
    proof -
      have k: "hdr s2 c = hdr s c \<and> hplus c (s_size (hdr s c)) \<le> cp" if c: "c \<in> set as" for c
        using ca[OF c] i(7)[OF c] by (simp add: cp_def)
      from that i(8)[of a a'] k[of a] k[of a'] show ?thesis
        by auto
    qed
  qed
  have "cp \<notin> set as" using ca by auto
  then have ra: "removeAll cp as = as" by simp
  from free_heap_inv[OF inv2, of cp] f obtain ys where ys: "heap_inv s' ys as"
    by (auto simp: ra)
  from well_formedD(1)[OF heap_invD(1)[OF ys]] have "freep s' \<in> set ys"
    by (rule ring_cursor_in)
  with ys r show ?thesis by auto
qed

lemma heap_inv_cursor:
  assumes "heap_inv s xs as"
  shows "freep s \<in> set xs" "freep s \<noteq> NULL" "bootstrap s = s"
proof -
  note i = heap_invD[OF assms]
  note wf = well_formedD[OF i(1)]
  show c: "freep s \<in> set xs" by (rule ring_cursor_in[OF wf(1)])
  from wf(3)[OF c] i(2) show n: "freep s \<noteq> NULL" by (auto simp: NULL_def)
  then show "bootstrap s = s" by (simp add: bootstrap_def)
qed

text \<open>
  An allocation that returns keeps the invariant, and the block of a non-null result
  joins the blocks in use.
\<close>

lemma malloc_heap_inv:
  assumes inv: "heap_inv s xs as" and n0: "nunits_of nbytes \<noteq> 0"
    and m: "malloc strat s nbytes = Some (s', r)"
  shows "\<exists>ys. heap_inv s' ys (if r = NULL then as else (r - sizeof_Header) # as)"
proof (cases "nbytes = 0")
  case True
  with m inv show ?thesis by (auto simp: malloc_def)
next
  case nz: False
  define I where "I = (\<lambda>(s1 :: state) prevp. \<exists>xs. heap_inv s1 xs as \<and> prevp \<in> set xs)"
  define Q where "Q = (\<lambda>y :: state \<times> addr.
      \<exists>ys. heap_inv (fst y) ys (if snd y = NULL then as else (snd y - sizeof_Header) # as))"
  have "Q (s', r)"
  proof (rule malloc_rule[OF m nz, where I = I])
    show "I (bootstrap s) (freep (bootstrap s))"
      using heap_inv_cursor[OF inv] inv by (auto simp: I_def)
  next
    fix s1 prevp assume "I s1 prevp"
    then obtain xs where x: "heap_inv s1 xs as" "prevp \<in> set xs" by (auto simp: I_def)
    from ring_next_in[OF well_formedD(1)[OF heap_invD(1)[OF x(1)]] x(2)] x(1)
    show "I s1 (s_ptr (hdr s1 prevp))" by (auto simp: I_def)
  next
    fix s1 prevp s2 p
    assume i: "I s1 prevp" and mc: "morecore s1 (nunits_of nbytes) = Some (s2, p)"
      and pn: "p \<noteq> NULL"
    from i obtain xs where x: "heap_inv s1 xs as" by (auto simp: I_def)
    from morecore_heap_inv[OF x mc] pn show "I s2 p" by (auto simp: I_def)
  next
    fix s1 prevp s2
    assume i: "I s1 prevp" and mc: "morecore s1 (nunits_of nbytes) = Some (s2, NULL)"
    from i obtain xs where x: "heap_inv s1 xs as" by (auto simp: I_def)
    from morecore_heap_inv[OF x mc] show "Q (s2, NULL)" by (auto simp: Q_def)
  next
    fix s1 prevp
    assume i: "I s1 prevp"
      and e: "s_size (hdr s1 (s_ptr (hdr s1 prevp))) = nunits_of nbytes"
    from i obtain xs where x: "heap_inv s1 xs as" "prevp \<in> set xs" by (auto simp: I_def)
    from unlink_heap_inv[OF x refl] e n0
    obtain ys where "heap_inv (fst (unlink_block s1 prevp (s_ptr (hdr s1 prevp)))) ys
        (s_ptr (hdr s1 prevp) # as)" by auto
    moreover have "snd (unlink_block s1 prevp (s_ptr (hdr s1 prevp)))
        = s_ptr (hdr s1 prevp) + sizeof_Header"
      by (simp add: unlink_block_def)
    ultimately show "Q (unlink_block s1 prevp (s_ptr (hdr s1 prevp)))"
      by (auto simp: Q_def sizeof_Header_def NULL_def)
  next
    fix s1 prevp
    assume i: "I s1 prevp"
      and lt: "nunits_of nbytes < s_size (hdr s1 (s_ptr (hdr s1 prevp)))"
    from i obtain xs where x: "heap_inv s1 xs as" "prevp \<in> set xs" by (auto simp: I_def)
    have pin: "s_ptr (hdr s1 prevp) \<in> set xs"
      by (rule ring_next_in[OF well_formedD(1)[OF heap_invD(1)[OF x(1)]] x(2)])
    have "snd (split_block s1 (nunits_of nbytes) prevp (s_ptr (hdr s1 prevp))) \<noteq> NULL"
      by (simp add: split_block_def Let_def sizeof_Header_def NULL_def)
    with split_heap_inv[OF x pin n0 lt]
    show "Q (split_block s1 (nunits_of nbytes) prevp (s_ptr (hdr s1 prevp)))"
      by (auto simp: Q_def)
  qed
  then show ?thesis by (cases "r = NULL") (simp_all add: Q_def)
qed

lemma heap_inv_dat: "heap_inv (s\<lparr>dat := d\<rparr>) xs as = heap_inv s xs as"
  by (simp add: heap_inv_def well_formed_def releasable_def)

text \<open>
  A resize of a block in use. The invariant looks at the headers of the blocks, free or
  in use, only, and a copy that stays inside a block in use writes none of them.
\<close>

lemma memcpy_hdr_outside:
  assumes "x + 12 \<le> dst \<or> dst + n \<le> x"
  shows "memcpy_hdr h d dst src n x = h x"
  using assms by (auto simp: memcpy_hdr_def Let_def)

lemma ring_cong:
  assumes "\<And>x. x \<in> set xs \<Longrightarrow> h' x = h x"
  shows "ring h' c xs = ring h c xs"
proof (cases "xs \<noteq> [] \<and> last xs = c")
  case True
  then have "c \<in> set xs" by auto
  moreover have "set (butlast xs) \<subseteq> set xs" by (auto dest: in_set_butlastD)
  ultimately have "path h' c xs = path h c xs"
    using assms by (intro path_frame) auto
  then show ?thesis by (simp add: ring_def)
next
  case False
  then show ?thesis by (auto simp: ring_def)
qed

lemma heap_inv_cong:
  assumes inv: "heap_inv s xs as"
    and h: "\<And>x. x \<in> set xs \<union> set as \<Longrightarrow> hdr s' x = hdr s x"
    and o: "base s' = base s" "freep s' = freep s" "brk s' = brk s"
  shows "heap_inv s' xs as"
proof -
  note i = heap_invD[OF inv]
  note wf = well_formedD[OF i(1)]
  have hx: "hdr s' x = hdr s x" if "x \<in> set xs" for x using that h by simp
  have ha: "hdr s' a = hdr s a" if "a \<in> set as" for a using that h by simp
  have "ring (hdr s') (freep s') xs"
    using wf(1) ring_cong[of xs "hdr s'" "hdr s"] hx by (simp add: o)
  then have wf': "well_formed s' xs"
    using wf(2,3,4) by (intro well_formedI) (simp_all add: o hx)
  show ?thesis
  proof (rule heap_invI)
    show "well_formed s' xs" by (rule wf')
    show "base s' \<noteq> NULL" "s_size (hdr s' (base s')) = 0" "base s' < brk s'" "distinct as"
      using i(2,3,4,5) hx[OF wf(2)] by (simp_all add: o)
    show "x < brk s' \<and> hplus x (s_size (hdr s' x)) \<le> brk s'" if "x \<in> set xs" for x
      using i(6)[OF that] hx[OF that] by (simp add: o)
    show "releasable s' xs (a + sizeof_Header) \<and> s_size (hdr s' a) \<noteq> 0 \<and>
          hplus a (s_size (hdr s' a)) \<le> brk s'" if a: "a \<in> set as" for a
    proof -
      note ra = releasableD[OF conjunct1[OF i(7)[OF a]]]
      have "releasable s' xs (a + sizeof_Header)"
        using ra by (intro releasableI) (simp_all add: o hx ha[OF a])
      with i(7)[OF a] show ?thesis by (simp add: o ha[OF a])
    qed
    show "hplus a (s_size (hdr s' a)) \<le> a' \<or> hplus a' (s_size (hdr s' a')) \<le> a"
      if "a \<in> set as" "a' \<in> set as" "a \<noteq> a'" for a a'
      using i(8)[OF that(1,2)] that by (simp add: ha)
  qed
qed

text \<open>
  A copy of at most the usable bytes of a block in use stays inside the block: it leaves
  the headers of all blocks, free or in use, as they are.
\<close>

lemma copy_inside_heap_inv:
  assumes inv: "heap_inv s xs as" and b: "b \<in> set as"
    and n: "n \<le> sizeof_Header * (unat (s_size (hdr s b)) - 1)"
  shows "heap_inv (s\<lparr>dat := d', hdr := memcpy_hdr (hdr s) d (b + sizeof_Header) src n\<rparr>) xs as"
proof (rule heap_inv_cong[OF inv])
  note i = heap_invD[OF inv]
  note wf = well_formedD[OF i(1)]
  define e where "e = hplus b (s_size (hdr s b))"
  have sz: "s_size (hdr s b) \<noteq> 0" using i(7)[OF b] by simp
  then have "0 < unat (s_size (hdr s b))" by (simp add: unat_gt_0)
  then have en: "b + sizeof_Header + n \<le> e"
    using n by (simp add: e_def hplus_def sizeof_Header_def)
  have far: "x < b \<or> x = b \<or> e \<le> x" if "x \<in> set xs \<union> set as" for x
  proof (cases "x \<in> set xs")
    case True
    from releasableD(3)[OF conjunct1[OF i(7)[OF b]] True] hplus_ge[of x "s_size (hdr s x)"]
    show ?thesis by (auto simp: e_def)
  next
    case False
    with that have "x \<in> set as" by simp
    from i(8)[OF b this] hplus_ge[of x "s_size (hdr s x)"] show ?thesis
      by (auto simp: e_def)
  qed
  fix x assume "x \<in> set xs \<union> set as"
  from far[OF this] en
  have "x + 12 \<le> b + sizeof_Header \<or> b + sizeof_Header + n \<le> x"
    by (auto simp: sizeof_Header_def)
  then show "hdr (s\<lparr>dat := d', hdr := memcpy_hdr (hdr s) d (b + sizeof_Header) src n\<rparr>) x
      = hdr s x"
    by (simp add: memcpy_hdr_outside)
qed simp_all

lemma realloc_heap_inv:
  assumes inv: "heap_inv s xs as" and a: "a \<in> set as" and le: "unat sz \<le> 2 ^ 36 - 32"
    and m: "realloc strat s (a + sizeof_Header) sz = Some (s', r)"
  shows "\<exists>ys. heap_inv s' ys (if sz = 0 then removeAll a as
                                else if r = NULL then as
                                else (r - sizeof_Header) # removeAll a as)"
proof (cases "sz = 0")
  case True
  with m have "free s (a + sizeof_Header) = Some s'"
    by (auto simp: realloc_def sizeof_Header_def NULL_def split: option.splits)
  with free_heap_inv[OF inv a] True show ?thesis by auto
next
  case False
  have nn: "a + sizeof_Header \<noteq> NULL" by (simp add: sizeof_Header_def NULL_def)
  from m False nn obtain s1 np where ma: "malloc strat s sz = Some (s1, np)"
    by (auto simp: realloc_def split: option.splits)
  have n0: "nunits_of sz \<noteq> 0"
    using nunits_of_in_range[OF le] by auto
  from malloc_heap_inv[OF inv n0 ma] obtain ys where
    ys: "heap_inv s1 ys (if np = NULL then as else (np - sizeof_Header) # as)" by blast
  show ?thesis
  proof (cases "np = NULL")
    case True
    with m False nn ma have "s' = s1" "r = NULL"
      by (auto simp: realloc_def)
    with ys True False show ?thesis by auto
  next
    case np: False
    define b where "b = np - sizeof_Header"
    define n where "n = unat (if sz < 16 * (ucast (s_size (hdr s1 a) - 1) :: 64 word) then sz
        else 16 * (ucast (s_size (hdr s1 a) - 1) :: 64 word))"
    define s2 where "s2 = s1\<lparr>dat := memcpy (dat s1) np (a + sizeof_Header) n,
        hdr := memcpy_hdr (hdr s1) (dat s1) np (a + sizeof_Header) n\<rparr>"
    from m False nn ma np have f: "free s2 (a + sizeof_Header) = Some s'" and r: "r = np"
      by (auto simp: realloc_def Let_def s2_def n_def split: option.splits)
    from ys np have i1: "heap_inv s1 ys (b # as)"
      by (simp add: b_def)
    from releasableD(2)[OF conjunct1[OF heap_invD(7)[OF i1, of b]]]
    have bn: "b + sizeof_Header = np"
      by (simp add: b_def)
    from malloc_recorded_units[OF ma] np have "s_size (hdr s1 b) = nunits_of sz"
      by (simp add: recorded_units_def b_def)
    moreover have "n \<le> unat sz"
      by (auto simp: n_def word_le_nat_alt word_less_nat_alt)
    ultimately have "n \<le> sizeof_Header * (unat (s_size (hdr s1 b)) - 1)"
      using nunits_of_enough[OF le] by simp
    from copy_inside_heap_inv[OF i1 _ this,
        where d' = "memcpy (dat s1) np (a + sizeof_Header) n" and d = "dat s1"
          and src = "a + sizeof_Header"]
    have i2: "heap_inv s2 ys (b # as)"
      by (simp add: s2_def bn)
    from heap_invD(5)[OF i2] a have "b \<noteq> a" by auto
    with free_heap_inv[OF i2, of a] a f obtain zs where
      "heap_inv s' zs (b # removeAll a as)" by auto
    with False np r show ?thesis by (auto simp: b_def)
  qed
qed

text \<open>
  The invariant holds once the first allocation has initialised the list, provided
  \<^verbatim>\<open>base\<close> is a non-null address below the break.
\<close>

lemma fresh_heap_inv:
  assumes "b \<noteq> NULL" "b < lo"
  shows "heap_inv (bootstrap (fresh_state b lo hi)) [b] []"
proof -
  have "cyc_sorted [b]"
    by (simp add: cyc_sorted_def)
  then show ?thesis
    using assms
    by (simp add: heap_inv_def well_formed_def ring_def separated_def bootstrap_def
        fresh_state_def set_ptr_def set_size_def hplus_def)
qed

lemma bootstrap_idem: "bootstrap (bootstrap s) = bootstrap s"
  by (simp add: bootstrap_def set_ptr_def set_size_def)

lemma malloc_bootstrap:
  "nbytes \<noteq> 0 \<Longrightarrow> malloc strat (bootstrap s) nbytes = malloc strat s nbytes"
  by (cases strat) (simp_all add: malloc_def bootstrap_idem Let_def)

lemma malloc_first_heap_inv:
  assumes b: "b \<noteq> NULL" "b < lo" and nz: "nbytes \<noteq> 0" and n0: "nunits_of nbytes \<noteq> 0"
    and m: "malloc strat (fresh_state b lo hi) nbytes = Some (s', r)"
  shows "\<exists>ys. heap_inv s' ys (if r = NULL then [] else [r - sizeof_Header])"
proof -
  from m nz have "malloc strat (bootstrap (fresh_state b lo hi)) nbytes = Some (s', r)"
    by (simp add: malloc_bootstrap)
  from malloc_heap_inv[OF fresh_heap_inv[OF b] n0 this] show ?thesis .
qed

text \<open>
  A block in use may be released: the free list is well formed and the block is
  releasable, whatever calls led to the state.
\<close>

lemma heap_inv_release:
  assumes "heap_inv s xs as" "a \<in> set as"
  shows "well_formed s xs \<and> releasable s xs (a + sizeof_Header)"
  using heap_invD(1,7)[OF assms(1)] assms(2) by simp

section \<open>The placement strategies\<close>

lemma revolution_ring:
  "revolution s xs \<Longrightarrow> cyc_sorted xs \<Longrightarrow> ring (hdr s) (freep s) xs"
  by (simp add: revolution_def ring_def)

text \<open>
  C4: a call of \<^verbatim>\<open>malloc\<close> with a non-zero size under \<^verbatim>\<open>STRATEGY_FIRST\<close>, on a list
  of which \<open>xs\<close> is one revolution, does what \<open>first_fit_spec\<close> says: the first block of
  the walk from just after the cursor with at least \<open>nunits\<close> units is taken, unlinked
  whole on an exact match and split at its upper end otherwise, with the cursor left at
  the block walked just before it; when the revolution has no such block, \<^verbatim>\<open>morecore\<close>
  is called with \<open>nunits\<close>, a \<^verbatim>\<open>NULL\<close> from it is the result, and otherwise the call
  goes on as a call on the grown state. On a ring of non-null blocks, with a non-null
  break, a \<^verbatim>\<open>NULL\<close> result is returned only with the raw memory source exhausted.
\<close>

theorem malloc_first_fit:
  assumes "nbytes \<noteq> 0" and "revolution (bootstrap s) xs"
  shows "malloc STRATEGY_FIRST s nbytes = first_fit_spec (bootstrap s) nbytes xs \<and>
         (cyc_sorted xs \<and> NULL \<notin> set xs \<and> brk s \<noteq> NULL \<longrightarrow>
            (\<forall>s'. malloc STRATEGY_FIRST s nbytes = Some (s', NULL) \<longrightarrow>
                  grow_fails s' (nunits_of nbytes)))"
  using malloc_first_fit_eq[OF assms] malloc_fails_exhausted[OF revolution_ring[OF assms(2)] _ _ assms(1)]
  by blast

text \<open>
  C5: under \<^verbatim>\<open>STRATEGY_BEST\<close>, on a list of non-null blocks of which \<open>xs\<close> is one
  revolution, the call does what \<open>best_fit_spec\<close> says: the first block of the walk with
  exactly \<open>nunits\<close> units is unlinked and returned; without one, the smallest block
  with more than \<open>nunits\<close> units (the earliest among equals) is split at its upper end;
  without any candidate, \<^verbatim>\<open>morecore\<close> is called and the call goes on as a call on
  the grown state. On a ring, with a non-null break, a \<^verbatim>\<open>NULL\<close> result is
  returned only with the raw memory source exhausted.
\<close>

theorem malloc_best_fit:
  assumes "nbytes \<noteq> 0" and "revolution (bootstrap s) xs" and "NULL \<notin> set xs"
  shows "malloc STRATEGY_BEST s nbytes = best_fit_spec (bootstrap s) nbytes xs \<and>
         (cyc_sorted xs \<and> brk s \<noteq> NULL \<longrightarrow>
            (\<forall>s'. malloc STRATEGY_BEST s nbytes = Some (s', NULL) \<longrightarrow>
                  grow_fails s' (nunits_of nbytes)))"
  using malloc_best_fit_eq[OF assms]
    malloc_fails_exhausted[OF revolution_ring[OF assms(2)] assms(3) _ assms(1)]
  by blast

theorem malloc_first_fit_witness:
  "(40 :: 64 word) \<noteq> 0 \<and> revolution (bootstrap example_state) [8192, 8448, 8576, 4096] \<and>
   malloc STRATEGY_FIRST example_state 40 =
     first_fit_spec (bootstrap example_state) 40 [8192, 8448, 8576, 4096] \<and>
   map_option snd (malloc STRATEGY_FIRST example_state 40) = Some 8272"
  using malloc_first_fit[of 40 example_state "[8192, 8448, 8576, 4096]"]
  by (simp add: revolution_def bootstrap_def example_state_def NULL_def first_fit_spec_def
      nunits_of_def place_def carve_upper_def sizeof_Header_def Let_def)

theorem malloc_best_fit_witness:
  "(40 :: 64 word) \<noteq> 0 \<and> revolution (bootstrap example_state) [8192, 8448, 8576, 4096] \<and>
   NULL \<notin> set [8192, 8448, 8576, 4096 :: nat] \<and>
   malloc STRATEGY_BEST example_state 40 =
     best_fit_spec (bootstrap example_state) 40 [8192, 8448, 8576, 4096] \<and>
   map_option snd (malloc STRATEGY_BEST example_state 40) = Some 8608"
  using malloc_best_fit[of 40 example_state "[8192, 8448, 8576, 4096]"]
  by (simp add: revolution_def bootstrap_def example_state_def NULL_def best_fit_spec_def
      nunits_of_def carve_upper_def sizeof_Header_def Let_def)

section \<open>Resizing by copy\<close>

text \<open>
  C6: for a non-null \<open>ptr\<close> and a non-zero size, \<^verbatim>\<open>realloc\<close> first calls
  \<^verbatim>\<open>malloc\<close>. When that returns \<^verbatim>\<open>NULL\<close>, so does \<^verbatim>\<open>realloc\<close>, in the state
  \<^verbatim>\<open>malloc\<close> left: no payload byte has changed, and when the failure is an exhausted
  source on an initialised list the whole state is as before. Otherwise (the old header
  recording at least its own unit) it copies the smaller of the new size and the old usable
  bytes from the old region to the new one (a copy that runs past the new block renews
  the headers under the bytes it writes), releases the old reference and returns the
  new one. On a ring, the header of an old block in use is the same after the call of
  \<^verbatim>\<open>malloc\<close> as before it, whatever the call returns, provided the unit count of the
  request is not truncated to 0.
\<close>

theorem realloc_resize:
  assumes "ptr \<noteq> NULL" and "sz \<noteq> 0" and "malloc strat s sz = Some (s1, new_ptr)"
  shows "(new_ptr = NULL \<longrightarrow>
            realloc strat s ptr sz = Some (s1, NULL) \<and> dat s1 = dat s \<and>
            (grow_fails s (nunits_of sz) \<and> freep s \<noteq> NULL \<longrightarrow> s1 = s)) \<and>
         (new_ptr \<noteq> NULL \<and> s_size (hdr s1 (ptr - sizeof_Header)) \<noteq> 0 \<longrightarrow>
            realloc strat s ptr sz = copy_and_release s1 new_ptr ptr sz) \<and>
         (ring (hdr s) (freep s) xs \<and> freep s \<noteq> NULL \<and> in_use s xs (ptr - sizeof_Header) \<and>
          nunits_of sz \<noteq> 0 \<longrightarrow>
            hdr s1 (ptr - sizeof_Header) = hdr s (ptr - sizeof_Header))"
  using realloc_resize_eq[OF assms] malloc_frame[OF _ _ _ _ assms(3), of xs "ptr - sizeof_Header"]
  by simp

theorem realloc_resize_witness:
  "(8336 :: addr) \<noteq> NULL \<and> (40 :: 64 word) \<noteq> 0 \<and>
   malloc STRATEGY_FIRST example_state 40 = Some (carve_upper example_state 4 4096 8192) \<and>
   snd (carve_upper example_state 4 4096 8192) = 8272 \<and>
   s_size (hdr (fst (carve_upper example_state 4 4096 8192)) (8336 - sizeof_Header)) = 8 \<and>
   realloc STRATEGY_FIRST example_state 8336 40 =
     copy_and_release (fst (carve_upper example_state 4 4096 8192)) 8272 8336 40 \<and>
   map_option snd (realloc STRATEGY_FIRST example_state 8336 40) = Some 8272 \<and>
   ring (hdr example_state) (freep example_state) [8192, 8448, 8576, 4096] \<and>
   freep example_state \<noteq> NULL \<and>
   in_use example_state [8192, 8448, 8576, 4096] (8336 - sizeof_Header) \<and>
   nunits_of 40 \<noteq> 0 \<and>
   hdr (fst (carve_upper example_state 4 4096 8192)) (8336 - sizeof_Header) =
     hdr example_state (8336 - sizeof_Header)"
proof -
  have m: "malloc STRATEGY_FIRST example_state 40 = Some (carve_upper example_state 4 4096 8192)"
    by (simp add: run_simps carve_upper_def example_state_def)
  have r: "snd (carve_upper example_state 4 4096 8192) = 8272"
    by (simp add: carve_upper_def example_state_def sizeof_Header_def Let_def)
  have u: "s_size (hdr (fst (carve_upper example_state 4 4096 8192)) (8336 - sizeof_Header)) = 8"
    by (simp add: carve_upper_def example_state_def sizeof_Header_def Let_def)
  have m': "malloc STRATEGY_FIRST example_state 40 =
      Some (fst (carve_upper example_state 4 4096 8192), 8272)"
    using m r by (metis prod.collapse)
  have "sorted_wrt (<) (rotate (Suc (Suc (Suc 0))) [8192, 8448, 8576, 4096 :: nat])"
    by simp
  then have "cyc_sorted [8192, 8448, 8576, 4096]"
    unfolding cyc_sorted_iff by blast
  then have g: "ring (hdr example_state) (freep example_state) [8192, 8448, 8576, 4096]"
    by (simp add: ring_def example_state_def)
  have f: "freep example_state \<noteq> NULL"
    by (simp add: example_state_def NULL_def)
  have i: "in_use example_state [8192, 8448, 8576, 4096] (8336 - sizeof_Header)"
    by (simp add: in_use_def example_state_def hplus_def sizeof_Header_def)
  have n: "nunits_of 40 \<noteq> 0"
    by (simp add: nunits_of_def)
  have c: "map_option snd (copy_and_release (fst (carve_upper example_state 4 4096 8192))
      8272 8336 40) = Some 8272"
    by (simp add: copy_and_release_def copy_payload_def memcpy_hdr_def usable_bytes_def
        carve_upper_def example_state_def run_simps)
  from realloc_resize[OF _ _ m', of 8336 "[8192, 8448, 8576, 4096]"] m r u g f i n c
  show ?thesis by (simp add: NULL_def)
qed

section \<open>The free list along a use of the allocator\<close>

text \<open>
  Along a use within the contract the heap invariant, and with it the ring, is kept by
  every call that returns.
\<close>

lemma perform_call_result: "perform strat s c = map_option fst (call_result strat s c)"
  by (cases c) (simp_all add: option.map_comp comp_def option.map_ident)

lemma call_heap_inv:
  assumes inv: "heap_inv s xs as" and al: "allowed as c"
    and r: "call_result strat s c = Some (s', r)"
  shows "\<exists>ys. heap_inv s' ys (blocks_after as c r)"
proof (cases c)
  case (Malloc n)
  with al have "unat n \<le> 2 ^ 36 - 32" by (simp add: max_request_def)
  from nunits_of_in_range[OF this] have "nunits_of n \<noteq> 0" by auto
  from malloc_heap_inv[OF inv this] r Malloc show ?thesis by simp
next
  case (Free ap)
  show ?thesis
  proof (cases "ap = NULL")
    case True
    with r Free inv show ?thesis by (auto simp: free_def)
  next
    case False
    with al Free have a: "ap - sizeof_Header \<in> set as"
      and ap: "ap - sizeof_Header + sizeof_Header = ap" by simp_all
    from free_heap_inv[OF inv a] r Free False show ?thesis by (auto simp: ap)
  qed
next
  case (Realloc ap n)
  with al have le: "unat n \<le> 2 ^ 36 - 32" by (simp add: max_request_def)
  show ?thesis
  proof (cases "ap = NULL")
    case True
    from nunits_of_in_range[OF le] have "nunits_of n \<noteq> 0" by auto
    from malloc_heap_inv[OF inv this] r Realloc True show ?thesis
      by (simp add: realloc_def)
  next
    case False
    with al Realloc have a: "ap - sizeof_Header \<in> set as"
      and ap: "ap - sizeof_Header + sizeof_Header = ap" by simp_all
    from realloc_heap_inv[OF inv a le, of strat s' r] r Realloc False show ?thesis
      by (simp add: ap)
  qed
qed

lemma run_heap_inv:
  "heap_inv s xs as \<Longrightarrow> in_contract strat s as cs \<Longrightarrow> run strat s cs = Some s' \<Longrightarrow>
   \<exists>ys bs. heap_inv s' ys bs"
proof (induction cs arbitrary: s xs as)
  case Nil
  then show ?case by auto
next
  case (Cons c cs)
  from Cons.prems(3) obtain s1 where p: "perform strat s c = Some s1"
    and r: "run strat s1 cs = Some s'"
    by (auto split: option.splits)
  from p obtain r1 where c: "call_result strat s c = Some (s1, r1)"
    by (auto simp: perform_call_result)
  from Cons.prems(2) c have al: "allowed as c"
    and ic: "in_contract strat s1 (blocks_after as c r1) cs" by simp_all
  from call_heap_inv[OF Cons.prems(1) al c] obtain ys where
    "heap_inv s1 ys (blocks_after as c r1)" ..
  from Cons.IH[OF this ic r] show ?case .
qed

text \<open>
  A list whose walk from the cursor reaches \<^verbatim>\<open>NULL\<close> is no ring. (The model reads a
  header at address 0, whose successor is 0; the program would fault there.)
\<close>

lemma ring_fixed_point:
  assumes r: "ring h c xs" and x: "x \<in> set xs" and f: "s_ptr (h x) = x"
  shows "set xs = {x}"
proof -
  from r x obtain zs where z: "ring h x zs" "set zs = set xs"
    by (rule ring_rotate)
  then obtain p rest where zs: "zs = p # rest" and p: "p = s_ptr (h x)"
    and l: "last (p # rest) = x" and cz: "cyc_sorted zs"
    by (cases zs) (auto simp: ring_def)
  have d: "distinct (p # rest)"
    using cyc_sorted_distinct[OF cz] zs by simp
  have "rest = []"
  proof (rule ccontr)
    assume "rest \<noteq> []"
    with l have "x \<in> set rest" by (metis last.simps last_in_set)
    with d p f show False by simp
  qed
  with z(2) zs p f show ?thesis by simp
qed

lemma no_ring_to_NULL:
  assumes "s_ptr (h c) = a" "s_ptr (h a) = NULL" "s_ptr (h NULL) = NULL" "c \<noteq> NULL"
  shows "\<not> ring h c xs"
proof
  assume r: "ring h c xs"
  have c: "c \<in> set xs" by (rule ring_cursor_in[OF r])
  from ring_next_in[OF r c] assms(1) have a: "a \<in> set xs" by simp
  from ring_next_in[OF r a] assms(2) have "NULL \<in> set xs" by simp
  from ring_fixed_point[OF r this assms(3)] c assms(4) show False by simp
qed

text \<open>
  So, from a state in which the invariant holds, every sequence of calls within the
  contract that returns leaves one circular list: the walk from the cursor comes back to
  the cursor after visiting each block once, addresses increase strictly along it except
  at exactly one wrap-around point, and the cursor is one of the blocks visited.
\<close>

lemma ring_kept_in_contract:
  assumes "heap_inv s xs as" and "in_contract strat s as calls"
    and "run strat s calls = Some s'"
  shows "\<exists>ys. path (hdr s') (freep s') ys \<and> last ys = freep s' \<and> distinct ys \<and>
              cyc_sorted ys \<and> length (wrap_points (hdr s') ys) = 1 \<and> freep s' \<in> set ys"
proof -
  from run_heap_inv[OF assms] obtain ys bs where "heap_inv s' ys bs" by blast
  then have ys: "ring (hdr s') (freep s') ys"
    by (simp add: heap_inv_def well_formed_def)
  then have "path (hdr s') (freep s') ys" "last ys = freep s'" "cyc_sorted ys"
    by (auto simp: ring_def)
  with cyc_sorted_distinct[of ys] ring_one_wrap[OF ys] ring_cursor_in[OF ys]
  show ?thesis by blast
qed

text \<open>
  A use within the contract, from the state the first call initialises: two allocations,
  a release, a resize that moves its block, and a release of \<^verbatim>\<open>NULL\<close>.
\<close>

lemma in_contract_example:
  "heap_inv (bootstrap (fresh_state 4096 8192 73728)) [4096] [] \<and>
   in_contract STRATEGY_FIRST (bootstrap (fresh_state 4096 8192 73728)) []
     [Malloc 100, Malloc 16, Free 24432, Realloc 24464 200, Free NULL] \<and>
   map_option freep (run STRATEGY_FIRST (bootstrap (fresh_state 4096 8192 73728))
     [Malloc 100, Malloc 16, Free 24432, Realloc 24464 200, Free NULL]) = Some 8192"
proof -
  have "heap_inv (bootstrap (fresh_state 4096 8192 73728)) [4096] []"
    by (rule fresh_heap_inv) (simp_all add: NULL_def)
  moreover have "in_contract STRATEGY_FIRST (bootstrap (fresh_state 4096 8192 73728)) []
     [Malloc 100, Malloc 16, Free 24432, Realloc 24464 200, Free NULL]"
    by (simp add: run_simps realloc_def memcpy_def memcpy_hdr_def header_byte_def upt_rec
        max_request_def)
  moreover have "map_option freep (run STRATEGY_FIRST (bootstrap (fresh_state 4096 8192 73728))
     [Malloc 100, Malloc 16, Free 24432, Realloc 24464 200, Free NULL]) = Some 8192"
    by (simp add: run_simps realloc_def memcpy_def memcpy_hdr_def header_byte_def upt_rec)
  ultimately show ?thesis by blast
qed

text \<open>
  C3: the free list does not stay one circular chain after every sequence of calls. A
  resize to \<open>2 ^ 36\<close> bytes of a block in use has its unit count truncated to 1 by
  line 152, is given a block of one unit, with no payload, and copies the 112 usable bytes
  of the old block past it, over the headers of the blocks behind. In a fresh process
  under first fit: five allocations (the first returns 24464) and two releases leave the
  ring 8192, 24352, 24416, \<^verbatim>\<open>base\<close> (at 4096); the resize of 24464 then returns with the
  cursor at 24416, whose successor is 24448, whose successor is \<^verbatim>\<open>NULL\<close>: the walk
  from the cursor never comes back, and no list of blocks is a ring from the cursor.
\<close>

theorem realloc_overrun_breaks_ring:
  "map_option snd (malloc STRATEGY_FIRST (fresh_state 4096 8192 73728) 100) = Some 24464 \<and>
   nunits_of 68719476736 = 1 \<and>
   map_option (\<lambda>s. ring (hdr s) (freep s) [24352, 24416, 4096, 8192])
     (run STRATEGY_FIRST (fresh_state 4096 8192 73728)
        [Malloc 100, Malloc 16, Malloc 16, Malloc 16, Malloc 16, Free 24432, Free 24368])
     = Some True \<and>
   map_option (\<lambda>s. (freep s, s_ptr (hdr s 24416), s_ptr (hdr s 24448), s_ptr (hdr s NULL)))
     (run STRATEGY_FIRST (fresh_state 4096 8192 73728)
        [Malloc 100, Malloc 16, Malloc 16, Malloc 16, Malloc 16, Free 24432, Free 24368,
         Realloc 24464 68719476736])
     = Some (24416, 24448, NULL, NULL) \<and>
   map_option (\<lambda>s. \<exists>xs. ring (hdr s) (freep s) xs)
     (run STRATEGY_FIRST (fresh_state 4096 8192 73728)
        [Malloc 100, Malloc 16, Malloc 16, Malloc 16, Malloc 16, Free 24432, Free 24368,
         Realloc 24464 68719476736])
     = Some False"
proof -
  have m: "map_option snd (malloc STRATEGY_FIRST (fresh_state 4096 8192 73728) 100) = Some 24464"
    by (simp add: run_simps)
  have n: "nunits_of 68719476736 = 1"
    by (simp add: nunits_of_def)
  have "sorted_wrt (<) (rotate (Suc (Suc 0)) [24352, 24416, 4096, 8192 :: nat])"
    by simp
  then have c: "cyc_sorted [24352, 24416, 4096, 8192]"
    unfolding cyc_sorted_iff by blast
  have before: "map_option (\<lambda>s. ring (hdr s) (freep s) [24352, 24416, 4096, 8192]) r = Some True"
    if "map_option (\<lambda>s. (freep s, s_ptr (hdr s 8192), s_ptr (hdr s 24352), s_ptr (hdr s 24416),
          s_ptr (hdr s 4096))) r = Some (8192, 24352, 24416, 4096, 8192)" for r
    using that c by (cases r) (auto simp: ring_def)
  have after: "map_option (\<lambda>s. \<exists>xs. ring (hdr s) (freep s) xs) r = Some False"
    if "map_option (\<lambda>s. (freep s, s_ptr (hdr s 24416), s_ptr (hdr s 24448), s_ptr (hdr s NULL))) r
          = Some (24416, 24448, NULL, NULL)" for r
  proof (cases r)
    case None
    with that show ?thesis by simp
  next
    case (Some s)
    with that have "s_ptr (hdr s (freep s)) = 24448" "s_ptr (hdr s 24448) = NULL"
      "s_ptr (hdr s NULL) = NULL" "freep s \<noteq> NULL"
      by (simp_all add: NULL_def)
    from no_ring_to_NULL[OF this] Some show ?thesis by simp
  qed
  have e7: "map_option (\<lambda>s. (freep s, s_ptr (hdr s 8192), s_ptr (hdr s 24352), s_ptr (hdr s 24416),
        s_ptr (hdr s 4096)))
     (run STRATEGY_FIRST (fresh_state 4096 8192 73728)
        [Malloc 100, Malloc 16, Malloc 16, Malloc 16, Malloc 16, Free 24432, Free 24368])
     = Some (8192, 24352, 24416, 4096, 8192)"
    by (simp add: run_simps)
  have e8: "map_option (\<lambda>s. (freep s, s_ptr (hdr s 24416), s_ptr (hdr s 24448), s_ptr (hdr s NULL)))
     (run STRATEGY_FIRST (fresh_state 4096 8192 73728)
        [Malloc 100, Malloc 16, Malloc 16, Malloc 16, Malloc 16, Free 24432, Free 24368,
         Realloc 24464 68719476736])
     = Some (24416, 24448, NULL, NULL)"
    by (simp add: run_simps realloc_def memcpy_def memcpy_hdr_def header_byte_def upt_rec)
  from m n before[OF e7] e8 after[OF e8] show ?thesis by blast
qed

end
